theory Spec2Isabelle
  imports Main "HOL-Library.Log_Nat"
begin

section \<open>Python values used by the generator\<close>

text \<open>
  The exceptions the modelled code can raise. \<open>JSONDecodeError\<close> is what
  \<^verbatim>\<open>json.loads\<close> raises on a body that is not JSON (the specification calls it
  MalformedResponseError); \<open>APIError\<close> stands for any failure of the awaited
  chat-completion call, \<open>RenderError\<close> for any failure of templating or PDF
  writing, \<open>CancelledError\<close> for a task cancelled by the event loop.
\<close>

datatype error =
    KeyError | IndexError | ValueError | ZeroDivisionError | OverflowError
  | TypeError | JSONDecodeError | APIError | RenderError | CancelledError

subsection \<open>Floats\<close>

text \<open>
  A CPython float is an IEEE-754 binary64 number and every arithmetic result is rounded
  to nearest, ties to even. A finite float is represented by the rational it denotes
  (the sign of zero is not kept: \<^verbatim>\<open>0.0 == -0.0\<close> in Python).
\<close>

datatype pyfloat = Fin rat | PInf | NInf | NaN

definition pow2 :: "int \<Rightarrow> rat" where
  "pow2 e = (if 0 \<le> e then 2 ^ nat e else 1 / 2 ^ nat (- e))"

text \<open>The binary exponent \<open>\<lfloor>log\<^sub>2 q\<rfloor>\<close> of a positive rational.\<close>

definition ilog2 :: "rat \<Rightarrow> int" where
  "ilog2 q = (let (a, b) = quotient_of q; n = bitlen a - bitlen b
              in if pow2 n \<le> q then n else n - 1)"

definition round_half_even :: "rat \<Rightarrow> int" where
  "round_half_even q =
     (let f = \<lfloor>q\<rfloor>; d = q - of_int f
      in if d < 1 / 2 then f else if 1 / 2 < d then f + 1 else if even f then f else f + 1)"

text \<open>
  The binary64 number nearest to a rational: 53 significant bits from exponent
  \<open>-1022\<close> upwards, multiples of \<open>2\<^sup>-\<^sup>1\<^sup>0\<^sup>7\<^sup>4\<close> below, an infinity when the rounded
  magnitude reaches \<open>2\<^sup>1\<^sup>0\<^sup>2\<^sup>4\<close>.
\<close>

definition round_double :: "rat \<Rightarrow> pyfloat" where
  "round_double q =
     (if q = 0 then Fin 0
      else let e = max (ilog2 \<bar>q\<bar>) (- 1022);
               ulp = pow2 (e - 52);
               m = round_half_even (q / ulp)
           in if 1024 \<le> e \<or> (e = 1023 \<and> \<bar>m\<bar> = 2 ^ 53)
              then (if 0 < q then PInf else NInf)
              else Fin (of_int m * ulp))"

fun fsign :: "pyfloat \<Rightarrow> int" where
  "fsign (Fin a) = (if 0 < a then 1 else if a < 0 then - 1 else 0)"
| "fsign PInf = 1"
| "fsign NInf = - 1"
| "fsign NaN = 0"

fun fadd :: "pyfloat \<Rightarrow> pyfloat \<Rightarrow> pyfloat" where
  "fadd (Fin a) (Fin b) = round_double (a + b)"
| "fadd NaN y = NaN"
| "fadd x NaN = NaN"
| "fadd PInf NInf = NaN"
| "fadd NInf PInf = NaN"
| "fadd PInf y = PInf"
| "fadd NInf y = NInf"
| "fadd x PInf = PInf"
| "fadd x NInf = NInf"

fun fmul :: "pyfloat \<Rightarrow> pyfloat \<Rightarrow> pyfloat" where
  "fmul (Fin a) (Fin b) = round_double (a * b)"
| "fmul NaN y = NaN"
| "fmul x NaN = NaN"
| "fmul x y =
     (let s = fsign x * fsign y
      in if s = 0 then NaN else if 0 < s then PInf else NInf)"

text \<open>The quotient of two floats, the divisor not zero.\<close>

fun fquot :: "pyfloat \<Rightarrow> pyfloat \<Rightarrow> pyfloat" where
  "fquot (Fin a) (Fin b) = round_double (a / b)"
| "fquot NaN y = NaN"
| "fquot x NaN = NaN"
| "fquot (Fin a) y = Fin 0"
| "fquot x (Fin b) = (if 0 < fsign x * fsign (Fin b) then PInf else NInf)"
| "fquot x y = NaN"

text \<open>\<^verbatim>\<open>x / y\<close> on floats raises ZeroDivisionError for a zero divisor.\<close>

definition float_truediv :: "pyfloat \<Rightarrow> pyfloat \<Rightarrow> error + pyfloat" where
  "float_truediv x y = (if y = Fin 0 then Inl ZeroDivisionError else Inr (fquot x y))"

text \<open>
  \<^verbatim>\<open>float(n)\<close> of an int, as the mixed operation \<^verbatim>\<open>x / n\<close> applies it: correctly
  rounded, OverflowError beyond the float range.
\<close>

definition float_of_int :: "int \<Rightarrow> error + pyfloat" where
  "float_of_int n =
     (case round_double (of_int n) of Fin y \<Rightarrow> Inr (Fin y) | _ \<Rightarrow> Inl OverflowError)"

text \<open>
  \<^verbatim>\<open>a / b\<close> on two ints: the correctly rounded quotient, ZeroDivisionError for
  \<open>b = 0\<close>, OverflowError when the quotient is beyond the float range.
\<close>

definition int_truediv :: "int \<Rightarrow> int \<Rightarrow> error + pyfloat" where
  "int_truediv a b =
     (if b = 0 then Inl ZeroDivisionError
      else case round_double (of_int a / of_int b) of
             Fin y \<Rightarrow> Inr (Fin y)
           | _ \<Rightarrow> Inl OverflowError)"

text \<open>Comparison of floats; every comparison with NaN is false.\<close>

fun flt :: "pyfloat \<Rightarrow> pyfloat \<Rightarrow> bool" where
  "flt NaN y = False"
| "flt x NaN = False"
| "flt (Fin a) (Fin b) = (a < b)"
| "flt PInf y = False"
| "flt x NInf = False"
| "flt x PInf = True"
| "flt NInf y = True"

definition fle :: "pyfloat \<Rightarrow> pyfloat \<Rightarrow> bool" where
  "fle x y = (x \<noteq> NaN \<and> y \<noteq> NaN \<and> (x = y \<or> flt x y))"

fun isfinite :: "pyfloat \<Rightarrow> bool" where
  "isfinite (Fin a) = True"
| "isfinite x = False"

text \<open>
  \<^verbatim>\<open>sum(xs)\<close> of a list of floats: the items are added from the left, starting
  from 0. (CPython 3.12 and later also carry a compensation term through the additions;
  the development uses \<open>py_sum\<close> only as a function of the list.)
\<close>

definition py_sum :: "pyfloat list \<Rightarrow> pyfloat" where
  "py_sum xs = foldl fadd (Fin 0) xs"

text \<open>
  The unit roundoff of binary64, and ``\<open>x\<close> is \<open>T\<close> up to \<open>k\<close> roundings'': the
  relation \<open>approx k T x\<close> used to bound the error of a float computation against its
  exact value.
\<close>

definition unit_roundoff :: rat where
  "unit_roundoff = 1 / 2 ^ 53"

definition approx :: "nat \<Rightarrow> rat \<Rightarrow> rat \<Rightarrow> bool" where
  "approx k T x = (T * (1 - unit_roundoff) ^ k \<le> x \<and> x \<le> T * (1 + unit_roundoff) ^ k)"

subsection \<open>Decimal text of integers\<close>

definition digit_char :: "nat \<Rightarrow> char" where
  "digit_char d = ''0123456789'' ! d"

fun digits10 :: "nat \<Rightarrow> string" where
  "digits10 n = (if n < 10 then [digit_char n] else digits10 (n div 10) @ [digit_char (n mod 10)])"

text \<open>\<^verbatim>\<open>str(i)\<close> for an int.\<close>

definition str_int :: "int \<Rightarrow> string" where
  "str_int i = (if i < 0 then ''-'' @ digits10 (nat (- i)) else digits10 (nat i))"

text \<open>
  \<^verbatim>\<open>format(i, "04d")\<close>: the decimal digits, zero-filled after the sign to a total
  width of at least four; longer numbers are not truncated.
\<close>

definition format_04d :: "int \<Rightarrow> string" where
  "format_04d i =
     (let sign = (if i < 0 then ''-'' else '''');
          ds = digits10 (nat \<bar>i\<bar>)
      in sign @ replicate (4 - length sign - length ds) (CHR ''0'') @ ds)"

subsection \<open>Format strings\<close>

text \<open>
  A \<^verbatim>\<open>str.format\<close> template is a sequence of literal pieces and named
  replacement fields; a field with no keyword argument raises KeyError.
\<close>

datatype piece = Lit string | Field string

fun str_format :: "piece list \<Rightarrow> (string \<times> string) list \<Rightarrow> error + string" where
  "str_format [] kw = Inr []"
| "str_format (Lit s # ps) kw =
     (case str_format ps kw of Inl e \<Rightarrow> Inl e | Inr r \<Rightarrow> Inr (s @ r))"
| "str_format (Field k # ps) kw =
     (case map_of kw k of
        None \<Rightarrow> Inl KeyError
      | Some v \<Rightarrow> (case str_format ps kw of Inl e \<Rightarrow> Inl e | Inr r \<Rightarrow> Inr (v @ r)))"

section \<open>models/prompts.py\<close>

text \<open>The value of \<^verbatim>\<open>json.dumps(RESUME_SCHEMA, separators=(',', ':'))\<close>.\<close>

definition SCHEMA_STR :: string where
  \<open>SCHEMA_STR = ''{"summary":"2-3 sentence professional summary with keywords","skills":["skill1","skill2","..."],"experience":[{"title":"Standard Job Title (no abbreviations)","company":"Fictional Company Name","location":"City, State","start_date":"Month YYYY","end_date":"Month YYYY or Present","bullets":["Action verb + task + result/metric","..."]}],"education":[{"degree":"Full Degree Name (e.g., Bachelor of Science in Computer Science)","institution":"University Name","year":"YYYY","gpa":"3.X (optional, only if > 3.5)"}],"certifications":["Full Certification Name (Issuing Organization)"]}''\<close>

definition get_seniority_tier :: "int \<Rightarrow> string" where
  "get_seniority_tier years =
     (if years \<le> 4 then ''junior''
      else if years \<le> 10 then ''mid''
      else ''senior'')"

definition SYSTEM_PROMPT :: string where
  \<open>SYSTEM_PROMPT = ''Generate fictional resume JSON optimized for ATS parsing.\<newline>\<newline>ATS Rules:\<newline>- Use standard job titles (Software Engineer not SWE, Project Manager not PM)\<newline>- Dates as "Month YYYY" format (January 2023, not Jan 2023 or 01/2023)\<newline>- Start bullets with strong action verbs (Led, Developed, Implemented, Managed, Designed)\<newline>- Include quantified achievements (%, $, numbers) in bullets\<newline>- Skills as individual items, no compound skills\<newline>- Full degree names (Bachelor of Science, not BS or B.S.)\<newline>- Include industry keywords naturally in summary and bullets\<newline>\<newline>Content Rules:\<newline>- All data fictional - no real people/companies\<newline>- Company names: use patterns like "Vertex Technologies", "Apex Solutions", "Summit Group"\<newline>- Dates must be logical: no overlaps, recent job ends "Present" or within 6 months\<newline>- Output valid JSON only''\<close>

definition TIER_PROMPTS :: "(string \<times> piece list) list" where
  "TIER_PROMPTS =
   [(''junior'',
     [Field ''role'', Lit '' in '', Field ''industry'', Lit '', '', Field ''seniority'',
      Lit ''yrs exp.\<newline>1-2 jobs, education focus, 2-3 bullets each.\<newline>Include: relevant coursework/projects, internships count as jobs.\<newline>Skills: 8-12 relevant technical and soft skills.\<newline>Schema:'',
      Field ''schema'']),
    (''mid'',
     [Field ''role'', Lit '' in '', Field ''industry'', Lit '', '', Field ''seniority'',
      Lit ''yrs exp.\<newline>3-4 jobs, balanced achievements, 3-4 bullets each.\<newline>Include: promotions, team leadership, project ownership.\<newline>Skills: 12-15 skills mixing technical expertise and domain knowledge.\<newline>Schema:'',
      Field ''schema'']),
    (''senior'',
     [Field ''role'', Lit '' in '', Field ''industry'', Lit '', '', Field ''seniority'',
      Lit ''yrs exp.\<newline>4-5 jobs, leadership focus, 4-5 bullets each.\<newline>Include: team size managed, budget responsibility, strategic initiatives.\<newline>Skills: 15-20 skills including leadership, strategy, and technical expertise.\<newline>Schema:'',
      Field ''schema''])]"

definition build_prompt :: "string \<Rightarrow> string \<Rightarrow> int \<Rightarrow> error + (string \<times> string)" where
  "build_prompt industry role seniority =
     (let tier = get_seniority_tier seniority in
      case map_of TIER_PROMPTS tier of
        None \<Rightarrow> Inl KeyError
      | Some template \<Rightarrow>
          (case str_format template
                  [(''role'', role), (''industry'', industry),
                   (''seniority'', str_int seniority), (''schema'', SCHEMA_STR)] of
             Inl e \<Rightarrow> Inl e
           | Inr user_prompt \<Rightarrow> Inr (SYSTEM_PROMPT, user_prompt)))"

section \<open>generate.py: cost tracking\<close>

text \<open>The float literals \<^verbatim>\<open>0.05\<close> and \<^verbatim>\<open>0.40\<close>.\<close>

definition PRICE_INPUT_PER_1M :: pyfloat where
  "PRICE_INPUT_PER_1M = round_double (5 / 100)"

definition PRICE_OUTPUT_PER_1M :: pyfloat where
  "PRICE_OUTPUT_PER_1M = round_double (40 / 100)"

record CostTracker =
  total_input_tokens :: int
  total_output_tokens :: int
  resume_costs :: "pyfloat list"

text \<open>\<^verbatim>\<open>CostTracker()\<close>: the dataclass defaults.\<close>

definition new_CostTracker :: CostTracker where
  "new_CostTracker = \<lparr>total_input_tokens = 0, total_output_tokens = 0, resume_costs = []\<rparr>"

text \<open>
  \<open>add_usage\<close> returns the cost, or the exception of a division, together with the
  tracker as the call leaves it: the two counters are updated before the cost is
  computed, the cost is appended after.
\<close>

definition add_usage :: "CostTracker \<Rightarrow> int \<Rightarrow> int \<Rightarrow> (error + pyfloat) \<times> CostTracker" where
  "add_usage self input_tokens output_tokens =
     (let self1 = self\<lparr>total_input_tokens := total_input_tokens self + input_tokens\<rparr>;
          self2 = self1\<lparr>total_output_tokens := total_output_tokens self1 + output_tokens\<rparr>
      in case int_truediv input_tokens 1000000 of
           Inl e \<Rightarrow> (Inl e, self2)
         | Inr a \<Rightarrow>
             (case int_truediv output_tokens 1000000 of
                Inl e \<Rightarrow> (Inl e, self2)
              | Inr b \<Rightarrow>
                  (let cost = fadd (fmul a PRICE_INPUT_PER_1M) (fmul b PRICE_OUTPUT_PER_1M)
                   in (Inr cost, self2\<lparr>resume_costs := resume_costs self2 @ [cost]\<rparr>))))"

definition total_cost :: "CostTracker \<Rightarrow> pyfloat" where
  "total_cost self = py_sum (resume_costs self)"

text \<open>
  \<open>avg_cost\<close>: the conditional expression tests the list first, so the division is
  evaluated for a non-empty list only; the \<^verbatim>\<open>0\<close> of the other branch is the number
  zero.
\<close>

definition avg_cost :: "CostTracker \<Rightarrow> error + pyfloat" where
  "avg_cost self =
     (if resume_costs self \<noteq> []
      then (case float_of_int (int (length (resume_costs self))) of
              Inl e \<Rightarrow> Inl e
            | Inr n \<Rightarrow> float_truediv (total_cost self) n)
      else Inr (Fin 0))"

text \<open>
  A sequence of \<open>add_usage\<close> calls on one tracker, collecting the returned costs; an
  exception ends the sequence where it is raised.
\<close>

fun add_usages :: "CostTracker \<Rightarrow> (int \<times> int) list \<Rightarrow> (error + pyfloat list) \<times> CostTracker" where
  "add_usages self [] = (Inr [], self)"
| "add_usages self ((i, out) # calls) =
     (case add_usage self i out of
        (Inl e, self') \<Rightarrow> (Inl e, self')
      | (Inr c, self') \<Rightarrow>
          (case add_usages self' calls of
             (Inl e, self'') \<Rightarrow> (Inl e, self'')
           | (Inr cs, self'') \<Rightarrow> (Inr (c # cs), self'')))"

text \<open>The tracker as the first \<open>n\<close> calls of a sequence leave it.\<close>

definition tracker_after :: "CostTracker \<Rightarrow> (int \<times> int) list \<Rightarrow> nat \<Rightarrow> CostTracker" where
  "tracker_after self calls n = snd (add_usages self (take n calls))"

text \<open>
  The specification's cost of a request in exact arithmetic: tokens times the price
  per token, the prices being 0.05 and 0.40 per million tokens.
\<close>

definition exact_cost :: "int \<Rightarrow> int \<Rightarrow> rat" where
  "exact_cost input_tokens output_tokens =
     of_int input_tokens * ((5 / 100) / 1000000) + of_int output_tokens * ((40 / 100) / 1000000)"

section \<open>The random module\<close>

text \<open>
  The shared random source is made explicit: every call that consumes randomness takes
  the integer it draws from the generator. \<^verbatim>\<open>random()\<close> yields a multiple of
  \<open>2\<^sup>-\<^sup>5\<^sup>3\<close> in \<open>[0, 1)\<close>; \<^verbatim>\<open>_randbelow(n)\<close> yields a number from \<open>0\<close> to
  \<open>n - 1\<close>, and every such number is the value of some draw.
\<close>

definition random_unit :: "int \<Rightarrow> pyfloat" where
  "random_unit r = Fin (of_int (r mod 2 ^ 53) / 2 ^ 53)"

definition randbelow :: "nat \<Rightarrow> int \<Rightarrow> nat" where
  "randbelow n k = nat (k mod int n)"

text \<open>\<^verbatim>\<open>random.choice(seq)\<close>: IndexError on an empty sequence.\<close>

definition random_choice :: "'a list \<Rightarrow> int \<Rightarrow> error + 'a" where
  "random_choice seq k =
     (if length seq = 0 then Inl IndexError else Inr (seq ! randbelow (length seq) k))"

text \<open>\<^verbatim>\<open>random.randint(a, b)\<close>, that is \<^verbatim>\<open>randrange(a, b + 1)\<close>.\<close>

definition randint :: "int \<Rightarrow> int \<Rightarrow> int \<Rightarrow> error + int" where
  "randint a b k =
     (let width = b + 1 - a
      in if 0 < width then Inr (a + int (randbelow (nat width) k)) else Inl ValueError)"

text \<open>\<^verbatim>\<open>itertools.accumulate(weights)\<close>: the running sums.\<close>

fun accumulate_from :: "pyfloat \<Rightarrow> pyfloat list \<Rightarrow> pyfloat list" where
  "accumulate_from running [] = []"
| "accumulate_from running (w # ws) = fadd running w # accumulate_from (fadd running w) ws"

definition accumulate :: "pyfloat list \<Rightarrow> pyfloat list" where
  "accumulate ws = (case ws of [] \<Rightarrow> [] | w # rest \<Rightarrow> w # accumulate_from w rest)"

text \<open>
  \<^verbatim>\<open>bisect.bisect_right(a, x, lo, hi)\<close>. The caller passes \<open>hi = len(a) - 1\<close>, so
  every index read is below the length of \<open>a\<close>.
\<close>

function bisect :: "pyfloat list \<Rightarrow> pyfloat \<Rightarrow> nat \<Rightarrow> nat \<Rightarrow> nat" where
  "bisect a x lo hi =
     (if lo < hi
      then (let mid = (lo + hi) div 2
            in if flt x (a ! mid) then bisect a x lo mid else bisect a x (mid + 1) hi)
      else lo)"
  by pat_completeness auto
termination
  by (relation "measure (\<lambda>(a, x, lo, hi). hi - lo)") auto

text \<open>
  \<^verbatim>\<open>random.choices(range(len(weights)), weights=weights)[0]\<close>: one index drawn with
  the given relative weights. Weights are floats here (an integer weight of the JSON
  table is the float of the same value).
\<close>

definition choices_index :: "pyfloat list \<Rightarrow> int \<Rightarrow> error + nat" where
  "choices_index weights r =
     (let n = length weights;
          cum_weights = accumulate weights
      in if cum_weights = [] then Inl IndexError
         else (let total = fadd (last cum_weights) (Fin 0)
               in if fle total (Fin 0) then Inl ValueError
                  else if \<not> isfinite total then Inl ValueError
                  else Inr (bisect cum_weights (fmul (random_unit r) total) 0 (n - 1))))"

section \<open>generate.py: role selection\<close>

text \<open>
  \<open>ROLE_MAPPING\<close> is loaded from \<^verbatim>\<open>data/role_mapping.json\<close>, which is not part of
  the sources: it is a parameter, the entries in the order of the file.
\<close>

record role_pools =
  primary :: "string list"
  secondary :: "string list"
  weights :: "pyfloat list"

type_synonym role_mapping = "(string \<times> role_pools) list"

definition INDUSTRIES :: "role_mapping \<Rightarrow> string list" where
  "INDUSTRIES ROLE_MAPPING = map fst ROLE_MAPPING"

definition select_role :: "role_mapping \<Rightarrow> string \<Rightarrow> int \<Rightarrow> int \<Rightarrow> error + string" where
  "select_role ROLE_MAPPING industry r k =
     (case map_of ROLE_MAPPING industry of
        None \<Rightarrow> Inl KeyError
      | Some mapping \<Rightarrow>
          (case choices_index (weights mapping) r of
             Inl e \<Rightarrow> Inl e
           | Inr tier_index \<Rightarrow>
               if tier_index = 0 then random_choice (primary mapping) k
               else random_choice (secondary mapping) k))"

section \<open>generate.py: one generation job\<close>

text \<open>
  Parsed JSON. \<^verbatim>\<open>json.loads\<close> is a parameter \<open>loads\<close> of the model: it returns the
  parsed value or raises (JSONDecodeError, the specification's MalformedResponseError).
\<close>

datatype json =
    JNull | JBool bool | JInt int | JFloat pyfloat | JStr string
  | JArr "json list" | JObj "(string \<times> json) list"

type_synonym json_loads = "string \<Rightarrow> error + json"

text \<open>What the job reads of a chat completion: the usage counts and the message text.\<close>

record api_response =
  prompt_tokens :: int
  completion_tokens :: int
  content :: string

definition TEMPLATES :: "string list" where
  "TEMPLATES = [''minimal.html'', ''modern.html'', ''classic.html'', ''corporate.html'']"

text \<open>
  \<open>generate_resume_data\<close>, the awaited API call given by its outcome (the response, or
  the exception it raises). The usage is recorded before the body is parsed.
\<close>

definition generate_resume_data ::
  "json_loads \<Rightarrow> string \<Rightarrow> string \<Rightarrow> int \<Rightarrow> CostTracker \<Rightarrow> error + api_response
     \<Rightarrow> (error + json \<times> pyfloat) \<times> CostTracker" where
  "generate_resume_data loads industry role seniority cost_tracker outcome =
     (case build_prompt industry role seniority of
        Inl e \<Rightarrow> (Inl e, cost_tracker)
      | Inr prompts \<Rightarrow>
          (case outcome of
             Inl e \<Rightarrow> (Inl e, cost_tracker)
           | Inr response \<Rightarrow>
               (case add_usage cost_tracker (prompt_tokens response) (completion_tokens response) of
                  (Inl e, tracker') \<Rightarrow> (Inl e, tracker')
                | (Inr cost, tracker') \<Rightarrow>
                    (case loads (content response) of
                       Inl e \<Rightarrow> (Inl e, tracker')
                     | Inr resume_data \<Rightarrow> (Inr (resume_data, cost), tracker')))))"

definition pdf_path :: "int \<Rightarrow> string" where
  "pdf_path index = ''output/resume_'' @ format_04d index @ ''.pdf''"

text \<open>
  \<open>render_pdf\<close>: the contact fields are stored into \<open>resume_data\<close>, which raises
  TypeError unless it is a JSON object; templating and PDF writing are external and either
  succeed (\<open>render_ok\<close>) or raise. The result is the path written.
\<close>

definition render_pdf :: "json \<Rightarrow> int \<Rightarrow> string \<Rightarrow> bool \<Rightarrow> error + string" where
  "render_pdf resume_data index template_name render_ok =
     (case resume_data of
        JObj members \<Rightarrow> if render_ok then Inr (pdf_path index) else Inl RenderError
      | _ \<Rightarrow> Inl TypeError)"

text \<open>The inputs a job draws for itself (lines 171 to 174 of generate.py).\<close>

record request =
  req_industry :: string
  req_role :: string
  req_seniority :: int
  req_template :: string

type_synonym draws = "int \<times> int \<times> int \<times> int \<times> int"

definition draw_request :: "role_mapping \<Rightarrow> draws \<Rightarrow> error + request" where
  "draw_request ROLE_MAPPING d =
     (case d of (k1, r, k2, k3, k4) \<Rightarrow>
        (case random_choice (INDUSTRIES ROLE_MAPPING) k1 of
           Inl e \<Rightarrow> Inl e
         | Inr ind \<Rightarrow>
             (case select_role ROLE_MAPPING ind r k2 of
                Inl e \<Rightarrow> Inl e
              | Inr rol \<Rightarrow>
                  (case randint 1 18 k3 of
                     Inl e \<Rightarrow> Inl e
                   | Inr sen \<Rightarrow>
                       (case random_choice TEMPLATES k4 of
                          Inl e \<Rightarrow> Inl e
                        | Inr tmpl \<Rightarrow>
                            Inr \<lparr>req_industry = ind, req_role = rol, req_seniority = sen,
                                 req_template = tmpl\<rparr>)))))"

text \<open>
  The rest of the job, from the call of \<open>generate_resume_data\<close> to the return: the
  result, the tracker, the files written and the progress units reported.
\<close>

definition finish_job ::
  "json_loads \<Rightarrow> request \<Rightarrow> int \<Rightarrow> CostTracker \<Rightarrow> error + api_response \<Rightarrow> bool
     \<Rightarrow> (error + int \<times> pyfloat) \<times> CostTracker \<times> string list \<times> nat" where
  "finish_job loads req index cost_tracker outcome render_ok =
     (case generate_resume_data loads (req_industry req) (req_role req) (req_seniority req)
             cost_tracker outcome of
        (Inl e, tracker') \<Rightarrow> (Inl e, tracker', [], 0)
      | (Inr (resume_data, cost), tracker') \<Rightarrow>
          (case render_pdf resume_data index (req_template req) render_ok of
             Inl e \<Rightarrow> (Inl e, tracker', [], 0)
           | Inr path \<Rightarrow> (Inr (index, cost), tracker', [path], 1)))"

text \<open>The body of \<open>generate_single_resume\<close> inside \<^verbatim>\<open>async with semaphore\<close>.\<close>

definition generate_single_resume ::
  "json_loads \<Rightarrow> role_mapping \<Rightarrow> int \<Rightarrow> CostTracker \<Rightarrow> draws \<Rightarrow> error + api_response \<Rightarrow> bool
     \<Rightarrow> (error + int \<times> pyfloat) \<times> CostTracker \<times> string list \<times> nat" where
  "generate_single_resume loads ROLE_MAPPING index cost_tracker d outcome render_ok =
     (case draw_request ROLE_MAPPING d of
        Inl e \<Rightarrow> (Inl e, cost_tracker, [], 0)
      | Inr req \<Rightarrow> finish_job loads req index cost_tracker outcome render_ok)"

section \<open>generate.py: the orchestrator\<close>

text \<open>
  The run is a sequence of atomic steps of the event loop: between two awaits a
  coroutine runs alone. A job waits for the semaphore, holds a slot while its API call
  is outstanding, and ends done or failed.
\<close>

datatype job_phase = Waiting | Holding request | Done int pyfloat | Failed error

record run_state =
  sem_value :: nat
  jobs :: "(int \<times> job_phase) list"
  tracker :: CostTracker
  written :: "string list"
  advanced :: nat
  first_error :: "error option"

text \<open>
  \<open>Enter i d\<close>: job \<open>i\<close> acquires a slot and runs to the await of its API call.
  \<open>Settle i outcome render_ok\<close>: the API call of job \<open>i\<close> completes and the job runs to
  its end. \<open>Cancel i\<close>: the event loop cancels job \<open>i\<close> at its await.
\<close>

datatype event = Enter nat draws | Settle nat "error + api_response" bool | Cancel nat

definition job_indices :: "int \<Rightarrow> int list" where
  "job_indices total_count = [1..total_count]"

definition initial_state :: "int \<Rightarrow> int \<Rightarrow> run_state" where
  "initial_state total_count concurrency =
     \<lparr>sem_value = nat concurrency,
      jobs = map (\<lambda>i. (i, Waiting)) (job_indices total_count),
      tracker = new_CostTracker, written = [], advanced = 0, first_error = None\<rparr>"

definition set_phase :: "run_state \<Rightarrow> nat \<Rightarrow> job_phase \<Rightarrow> run_state" where
  "set_phase s i p = s\<lparr>jobs := (jobs s)[i := (fst (jobs s ! i), p)]\<rparr>"

text \<open>A job ends with an exception; \<open>gather\<close> reports the first one.\<close>

definition fail :: "run_state \<Rightarrow> nat \<Rightarrow> error \<Rightarrow> run_state" where
  "fail s i e =
     (set_phase s i (Failed e))
       \<lparr>first_error := (case first_error s of None \<Rightarrow> Some e | Some e0 \<Rightarrow> Some e0)\<rparr>"

definition release :: "run_state \<Rightarrow> run_state" where
  "release s = s\<lparr>sem_value := sem_value s + 1\<rparr>"

definition acquire :: "run_state \<Rightarrow> run_state" where
  "acquire s = s\<lparr>sem_value := sem_value s - 1\<rparr>"

text \<open>
  One step. An event that is not enabled (no such job, the job in another phase, no
  free slot) leaves the state as it is.
\<close>

definition step :: "json_loads \<Rightarrow> role_mapping \<Rightarrow> run_state \<Rightarrow> event \<Rightarrow> run_state" where
  "step loads ROLE_MAPPING s ev =
     (case ev of
        Enter i d \<Rightarrow>
          if i < length (jobs s) \<and> snd (jobs s ! i) = Waiting \<and> 0 < sem_value s
          then (case draw_request ROLE_MAPPING d of
                  Inl e \<Rightarrow> release (fail (acquire s) i e)
                | Inr req \<Rightarrow>
                    (case build_prompt (req_industry req) (req_role req) (req_seniority req) of
                       Inl e \<Rightarrow> release (fail (acquire s) i e)
                     | Inr prompts \<Rightarrow> set_phase (acquire s) i (Holding req)))
          else s
      | Settle i outcome render_ok \<Rightarrow>
          if i < length (jobs s)
          then (case snd (jobs s ! i) of
                  Holding req \<Rightarrow>
                    (case finish_job loads req (fst (jobs s ! i)) (tracker s) outcome render_ok of
                       (Inl e, tracker', files, units) \<Rightarrow>
                         release (fail (s\<lparr>tracker := tracker'\<rparr>) i e)
                     | (Inr (index, cost), tracker', files, units) \<Rightarrow>
                         release (set_phase
                           (s\<lparr>tracker := tracker', written := written s @ files,
                              advanced := advanced s + units\<rparr>) i (Done index cost)))
                | _ \<Rightarrow> s)
          else s
      | Cancel i \<Rightarrow>
          if i < length (jobs s)
          then (case snd (jobs s ! i) of
                  Waiting \<Rightarrow> fail s i CancelledError
                | Holding req \<Rightarrow> release (fail s i CancelledError)
                | _ \<Rightarrow> s)
          else s)"

definition exec :: "json_loads \<Rightarrow> role_mapping \<Rightarrow> run_state \<Rightarrow> event list \<Rightarrow> run_state" where
  "exec loads ROLE_MAPPING s evs = foldl (step loads ROLE_MAPPING) s evs"

fun is_holding :: "job_phase \<Rightarrow> bool" where
  "is_holding (Holding req) = True"
| "is_holding p = False"

fun is_done :: "job_phase \<Rightarrow> bool" where
  "is_done (Done index cost) = True"
| "is_done p = False"

fun is_settled :: "job_phase \<Rightarrow> bool" where
  "is_settled (Done index cost) = True"
| "is_settled (Failed e) = True"
| "is_settled p = False"

text \<open>The jobs inside their held-slot phase, each with one API call outstanding.\<close>

definition holding :: "run_state \<Rightarrow> nat" where
  "holding s = length (filter (\<lambda>j. is_holding (snd j)) (jobs s))"

definition all_done :: "run_state \<Rightarrow> bool" where
  "all_done s = list_all (\<lambda>j. is_done (snd j)) (jobs s)"

definition all_settled :: "run_state \<Rightarrow> bool" where
  "all_settled s = list_all (\<lambda>j. is_settled (snd j)) (jobs s)"

text \<open>
  \<open>create_summary_table\<close>: the values of its rows. The speed row divides the count by
  the elapsed time.
\<close>

record summary =
  resumes_generated :: int
  total_time :: pyfloat
  speed :: pyfloat
  input_tokens_row :: int
  output_tokens_row :: int
  avg_cost_row :: pyfloat
  total_cost_row :: pyfloat

definition create_summary_table :: "int \<Rightarrow> pyfloat \<Rightarrow> CostTracker \<Rightarrow> error + summary" where
  "create_summary_table total_count elapsed cost_tracker =
     (case float_of_int total_count of
        Inl e \<Rightarrow> Inl e
      | Inr n \<Rightarrow>
          (case float_truediv n elapsed of
             Inl e \<Rightarrow> Inl e
           | Inr per_sec \<Rightarrow>
               (case avg_cost cost_tracker of
                  Inl e \<Rightarrow> Inl e
                | Inr avg \<Rightarrow>
                    Inr \<lparr>resumes_generated = total_count, total_time = elapsed, speed = per_sec,
                         input_tokens_row = total_input_tokens cost_tracker,
                         output_tokens_row = total_output_tokens cost_tracker,
                         avg_cost_row = avg, total_cost_row = total_cost cost_tracker\<rparr>)))"

definition cost_log :: "int \<Rightarrow> pyfloat \<Rightarrow> CostTracker \<Rightarrow> error + (string \<times> json) list" where
  "cost_log total_count elapsed cost_tracker =
     (case avg_cost cost_tracker of
        Inl e \<Rightarrow> Inl e
      | Inr avg \<Rightarrow>
          Inr [(''total_resumes'', JInt total_count),
               (''total_time_seconds'', JFloat elapsed),
               (''total_input_tokens'', JInt (total_input_tokens cost_tracker)),
               (''total_output_tokens'', JInt (total_output_tokens cost_tracker)),
               (''total_cost_usd'', JFloat (total_cost cost_tracker)),
               (''avg_cost_per_resume_usd'', JFloat avg),
               (''per_resume_costs_usd'', JArr (map JFloat (resume_costs cost_tracker)))])"

text \<open>
  What a run leaves behind: the state of the jobs and the tracker, and the content of
  \<^verbatim>\<open>output/cost_log.json\<close> if it was written.
\<close>

record world =
  final :: run_state
  cost_log_file :: "(string \<times> json) list option"

text \<open>
  \<open>main_async\<close> on a schedule of events, with the elapsed time it measures. The
  semaphore refuses a negative value. \<open>gather\<close> raises the first exception of a job; it
  returns when every job is done; while jobs are pending and none has failed,
  \<open>main_async\<close> has not returned (\<open>None\<close>).
\<close>

definition main_async ::
  "json_loads \<Rightarrow> role_mapping \<Rightarrow> int \<Rightarrow> bool \<Rightarrow> int \<Rightarrow> event list \<Rightarrow> pyfloat
     \<Rightarrow> ((error + summary) \<times> world) option" where
  "main_async loads ROLE_MAPPING total_count save_costs concurrency schedule elapsed =
     (if concurrency < 0
      then Some (Inl ValueError,
                 \<lparr>final = (initial_state total_count concurrency)\<lparr>jobs := []\<rparr>,
                  cost_log_file = None\<rparr>)
      else (let s = exec loads ROLE_MAPPING (initial_state total_count concurrency) schedule
            in case first_error s of
                 Some e \<Rightarrow> Some (Inl e, \<lparr>final = s, cost_log_file = None\<rparr>)
               | None \<Rightarrow>
                   if all_done s
                   then (case create_summary_table total_count elapsed (tracker s) of
                           Inl e \<Rightarrow> Some (Inl e, \<lparr>final = s, cost_log_file = None\<rparr>)
                         | Inr table \<Rightarrow>
                             if save_costs
                             then (case cost_log total_count elapsed (tracker s) of
                                     Inl e \<Rightarrow> Some (Inl e, \<lparr>final = s, cost_log_file = None\<rparr>)
                                   | Inr entries \<Rightarrow>
                                       Some (Inr table, \<lparr>final = s, cost_log_file = Some entries\<rparr>))
                             else Some (Inr table, \<lparr>final = s, cost_log_file = None\<rparr>))
                   else None))"

section \<open>A stub run\<close>

text \<open>
  The end-to-end scenario of the specification: a one-industry table, an API stub that
  answers every call with 100 input tokens, 50 output tokens and an empty JSON object,
  and a stand-in for \<^verbatim>\<open>json.loads\<close> that accepts that body only.
\<close>

definition stub_mapping :: role_mapping where
  "stub_mapping =
     [(''Technology'', \<lparr>primary = [''Software Engineer''], secondary = [''Product Manager''],
                        weights = [Fin 1, Fin 0]\<rparr>)]"

definition stub_loads :: json_loads where
  "stub_loads body = (if body = ''{}'' then Inr (JObj []) else Inl JSONDecodeError)"

definition stub_response :: api_response where
  "stub_response = \<lparr>prompt_tokens = 100, completion_tokens = 50, content = ''{}''\<rparr>"

definition malformed_response :: api_response where
  "malformed_response = \<lparr>prompt_tokens = 100, completion_tokens = 50, content = ''not json''\<rparr>"

definition stub_draws :: draws where
  "stub_draws = (0, 0, 0, 0, 0)"

definition stub_cost :: pyfloat where
  "stub_cost = Fin (7378697629483821 / 295147905179352825856)"

section \<open>Seniority tiers and prompt construction\<close>

lemma tier_prompt_junior:
  "years \<le> 4 \<Longrightarrow> \<exists>u. build_prompt industry role years = Inr (SYSTEM_PROMPT, u)"
  by (simp add: build_prompt_def get_seniority_tier_def TIER_PROMPTS_def)

lemma tier_prompt_mid:
  "4 < years \<Longrightarrow> years \<le> 10 \<Longrightarrow> \<exists>u. build_prompt industry role years = Inr (SYSTEM_PROMPT, u)"
  by (simp add: build_prompt_def get_seniority_tier_def TIER_PROMPTS_def)

lemma tier_prompt_senior:
  "10 < years \<Longrightarrow> \<exists>u. build_prompt industry role years = Inr (SYSTEM_PROMPT, u)"
  by (simp add: build_prompt_def get_seniority_tier_def TIER_PROMPTS_def)

lemma build_prompt_total:
  "\<exists>u. build_prompt industry role years = Inr (SYSTEM_PROMPT, u)"
proof -
  consider "years \<le> 4" | "4 < years" "years \<le> 10" | "10 < years"
    by linarith
  then show ?thesis
    by cases (auto intro: tier_prompt_junior tier_prompt_mid tier_prompt_senior)
qed

text \<open>
  C10. For every integer \<open>years\<close>, \<open>get_seniority_tier\<close> returns one of the three
  tier names: junior exactly when \<open>years \<le> 4\<close>, mid exactly when
  \<open>5 \<le> years \<le> 10\<close>, senior exactly when \<open>years \<ge> 11\<close>. The tier is always a key
  of \<open>TIER_PROMPTS\<close>, so \<open>build_prompt\<close> returns a prompt pair (never a KeyError) for
  every seniority, the values 1 to 18 a job draws included.
\<close>

theorem seniority_tier_partition:
  "get_seniority_tier years \<in> {''junior'', ''mid'', ''senior''}
   \<and> (get_seniority_tier years = ''junior'') = (years \<le> 4)
   \<and> (get_seniority_tier years = ''mid'') = (5 \<le> years \<and> years \<le> 10)
   \<and> (get_seniority_tier years = ''senior'') = (11 \<le> years)
   \<and> get_seniority_tier years \<in> fst ` set TIER_PROMPTS
   \<and> (\<exists>u. build_prompt industry role years = Inr (SYSTEM_PROMPT, u))"
proof -
  have "get_seniority_tier years \<in> {''junior'', ''mid'', ''senior''}"
    by (simp add: get_seniority_tier_def)
  moreover have "(get_seniority_tier years = ''junior'') = (years \<le> 4)"
    by (simp add: get_seniority_tier_def)
  moreover have "(get_seniority_tier years = ''mid'') = (5 \<le> years \<and> years \<le> 10)"
    by (auto simp add: get_seniority_tier_def)
  moreover have "(get_seniority_tier years = ''senior'') = (11 \<le> years)"
    by (auto simp add: get_seniority_tier_def)
  moreover have "get_seniority_tier years \<in> fst ` set TIER_PROMPTS"
    by (simp add: get_seniority_tier_def TIER_PROMPTS_def)
  ultimately show ?thesis
    using build_prompt_total by blast
qed

section \<open>Float arithmetic\<close>

lemma pow2_powi: "pow2 e = 2 powi e"
  by (simp add: pow2_def power_int_def inverse_eq_divide power_one_over)

lemma pow2_pos: "0 < pow2 e"
  by (simp add: pow2_powi)

lemma pow2_add: "pow2 (a + b) = pow2 a * pow2 b"
  by (simp add: pow2_powi power_int_add)

lemma pow2_mono: "a \<le> b \<Longrightarrow> pow2 a \<le> pow2 b"
  by (simp add: pow2_powi power_int_increasing)

lemma pow2_strict_mono: "a < b \<Longrightarrow> pow2 a < pow2 b"
  by (simp add: pow2_powi power_int_strict_increasing)

lemma pow2_le_iff: "pow2 a \<le> pow2 b \<longleftrightarrow> a \<le> b"
  using pow2_mono [of a b] pow2_strict_mono [of b a] by (auto simp: not_le [symmetric])

lemma pow2_less_iff: "pow2 a < pow2 b \<longleftrightarrow> a < b"
  using pow2_mono [of b a] pow2_strict_mono [of a b] by (auto simp: not_less [symmetric])

lemma pow2_nat: "0 \<le> e \<Longrightarrow> pow2 e = 2 ^ nat e"
  by (simp add: pow2_def)

lemma pow2_diff: "pow2 (a - b) = pow2 a / pow2 b"
  using pow2_add [of "a - b" b] pow2_pos [of b] by (simp add: field_simps)

lemma ilog2_bounds:
  assumes "0 < q"
  shows "pow2 (ilog2 q) \<le> q" and "q < pow2 (ilog2 q + 1)"
proof -
  obtain a b where ab: "quotient_of q = (a, b)" by (cases "quotient_of q")
  then have b: "0 < b" and q: "q = of_int a / of_int b"
    by (simp_all add: quotient_of_denom_pos quotient_of_div)
  with assms have a: "0 < a"
    by (simp add: zero_less_divide_iff)
  define la lb where "la = bitlen a" and "lb = bitlen b"
  from bitlen_bounds [OF a] have a1: "2 ^ nat (la - 1) \<le> a" and a2: "a < 2 ^ nat la"
    by (simp_all add: la_def)
  from bitlen_bounds [OF b] have b1: "2 ^ nat (lb - 1) \<le> b" and b2: "b < 2 ^ nat lb"
    by (simp_all add: lb_def)
  have la: "1 \<le> la" and lb: "1 \<le> lb"
    using a b bitlen_eq_zero_iff [of a] bitlen_eq_zero_iff [of b] bitlen_nonneg [of a] bitlen_nonneg [of b]
    by (auto simp: la_def lb_def)
  have ra1: "pow2 (la - 1) \<le> of_int a"
  proof -
    have "(of_int (2 ^ nat (la - 1)) :: rat) \<le> of_int a" using a1 by (simp only: of_int_le_iff)
    then show ?thesis using la by (simp add: pow2_nat)
  qed
  have ra2: "of_int a < pow2 la"
  proof -
    have "(of_int a :: rat) < of_int (2 ^ nat la)" using a2 by (simp only: of_int_less_iff)
    then show ?thesis using la by (simp add: pow2_nat)
  qed
  have rb1: "pow2 (lb - 1) \<le> of_int b"
  proof -
    have "(of_int (2 ^ nat (lb - 1)) :: rat) \<le> of_int b" using b1 by (simp only: of_int_le_iff)
    then show ?thesis using lb by (simp add: pow2_nat)
  qed
  have rb2: "of_int b < pow2 lb"
  proof -
    have "(of_int b :: rat) < of_int (2 ^ nat lb)" using b2 by (simp only: of_int_less_iff)
    then show ?thesis using lb by (simp add: pow2_nat)
  qed
  have rb: "(0::rat) < of_int b" using b by simp
  have lower: "pow2 (la - lb - 1) < q"
  proof -
    have "pow2 (la - lb - 1) * of_int b < pow2 (la - lb - 1) * pow2 lb"
      using rb2 pow2_pos by (simp add: mult_strict_left_mono)
    also have "\<dots> = pow2 (la - 1)"
      by (simp add: pow2_add [symmetric])
    also have "\<dots> \<le> of_int a" by (rule ra1)
    finally show ?thesis using rb by (simp add: q pos_less_divide_eq)
  qed
  have upper: "q < pow2 (la - lb + 1)"
  proof -
    have "of_int a < pow2 la" by (rule ra2)
    also have "\<dots> = pow2 (la - lb + 1) * pow2 (lb - 1)"
      by (simp add: pow2_add [symmetric])
    also have "\<dots> \<le> pow2 (la - lb + 1) * of_int b"
      using rb1 pow2_pos [of "la - lb + 1"] by (simp add: mult_left_mono)
    finally show ?thesis using rb by (simp add: q pos_divide_less_eq)
  qed
  have il: "ilog2 q = (if pow2 (la - lb) \<le> q then la - lb else la - lb - 1)"
    by (simp add: ilog2_def ab la_def lb_def Let_def)
  show "pow2 (ilog2 q) \<le> q"
    using lower by (simp add: il)
  show "q < pow2 (ilog2 q + 1)"
    using upper by (auto simp add: il not_le)
qed

lemma round_half_even_close: "\<bar>of_int (round_half_even x) - x\<bar> \<le> 1 / 2"
proof -
  have "of_int \<lfloor>x\<rfloor> \<le> x" "x < of_int \<lfloor>x\<rfloor> + 1" by linarith+
  then show ?thesis
    by (auto simp add: round_half_even_def Let_def)
qed

lemma round_half_even_of_int: "round_half_even (of_int k) = k"
  by (simp add: round_half_even_def)

lemma round_double_0: "round_double 0 = Fin 0"
  by (simp add: round_double_def)

lemma ilog2_ge:
  assumes "pow2 k \<le> q"
  shows "k \<le> ilog2 q"
proof -
  have q: "0 < q" using assms pow2_pos [of k] by linarith
  from ilog2_bounds(2) [OF q] assms have "pow2 k < pow2 (ilog2 q + 1)" by linarith
  then show ?thesis by (simp add: pow2_less_iff)
qed

lemma ilog2_less:
  assumes "0 < q" and "q < pow2 k"
  shows "ilog2 q < k"
proof -
  from ilog2_bounds(1) [OF assms(1)] assms(2) have "pow2 (ilog2 q) < pow2 k" by linarith
  then show ?thesis by (simp add: pow2_less_iff)
qed

lemma round_double_normal:
  assumes lo: "pow2 (- 1022) \<le> q" and hi: "q < pow2 1023"
  shows "\<exists>y. round_double q = Fin y \<and> \<bar>y - q\<bar> \<le> q / 2 ^ 53"
proof -
  have q: "0 < q" using lo pow2_pos [of "- 1022"] by linarith
  define e where "e = ilog2 q"
  have e1: "- 1022 \<le> e" unfolding e_def by (rule ilog2_ge [OF lo])
  have e2: "e < 1023" unfolding e_def by (rule ilog2_less [OF q hi])
  define ulp where "ulp = pow2 (e - 52)"
  define m where "m = round_half_even (q / ulp)"
  have ulp: "0 < ulp" by (simp add: ulp_def pow2_pos)
  have rd: "round_double q = Fin (of_int m * ulp)"
    using q e1 e2 by (simp add: round_double_def Let_def e_def [symmetric] ulp_def m_def max_def)
  have "\<bar>of_int m - q / ulp\<bar> \<le> 1 / 2"
    unfolding m_def by (rule round_half_even_close)
  then have "\<bar>of_int m - q / ulp\<bar> * ulp \<le> 1 / 2 * ulp"
    using ulp by (simp add: mult_right_mono)
  moreover have "\<bar>of_int m - q / ulp\<bar> * ulp = \<bar>of_int m * ulp - q\<bar>"
  proof -
    have "\<bar>of_int m - q / ulp\<bar> * ulp = \<bar>(of_int m - q / ulp) * ulp\<bar>"
      using ulp by (simp add: abs_mult)
    also have "(of_int m - q / ulp) * ulp = of_int m * ulp - q"
      using ulp by (simp add: field_simps)
    finally show ?thesis .
  qed
  moreover have "1 / 2 * ulp \<le> q / 2 ^ 53"
  proof -
    have "ulp = pow2 e / 2 ^ 52"
      by (simp add: ulp_def pow2_diff pow2_nat)
    moreover have "pow2 e \<le> q" unfolding e_def by (rule ilog2_bounds(1) [OF q])
    ultimately show ?thesis by (simp add: field_simps)
  qed
  ultimately have "\<bar>of_int m * ulp - q\<bar> \<le> q / 2 ^ 53" by linarith
  with rd show ?thesis by blast
qed

lemma round_double_ge1_nonzero:
  assumes "1 \<le> q"
  shows "round_double q \<noteq> Fin 0"
proof -
  have q: "0 < q" using assms by linarith
  define e where "e = ilog2 q"
  have "pow2 0 \<le> q" using assms by (simp add: pow2_def)
  then have e0: "0 \<le> e" unfolding e_def by (rule ilog2_ge)
  define ulp where "ulp = pow2 (e - 52)"
  define m where "m = round_half_even (q / ulp)"
  have ulp: "0 < ulp" by (simp add: ulp_def pow2_pos)
  have "ulp \<le> pow2 e" unfolding ulp_def by (simp add: pow2_le_iff)
  also have "pow2 e \<le> q" unfolding e_def by (rule ilog2_bounds(1) [OF q])
  finally have "1 \<le> q / ulp" using ulp by (simp add: pos_le_divide_eq)
  moreover have "\<bar>of_int m - q / ulp\<bar> \<le> 1 / 2"
    unfolding m_def by (rule round_half_even_close)
  ultimately have "(1::rat) / 2 \<le> of_int m" by linarith
  then have "(0::rat) < of_int m" by linarith
  then have mpos: "(0::rat) < of_int m * ulp" using ulp by simp
  have "round_double q = (if 1024 \<le> e \<or> e = 1023 \<and> \<bar>m\<bar> = 2 ^ 53 then PInf else Fin (of_int m * ulp))"
    using q e0 by (auto simp add: round_double_def Let_def e_def [symmetric] ulp_def m_def max_def)
  with mpos show ?thesis by auto
qed

lemma float_of_int_nonzero: "1 \<le> n \<Longrightarrow> float_of_int n \<noteq> Inr (Fin 0)"
  using round_double_ge1_nonzero [of "of_int n"]
  by (auto simp add: float_of_int_def split: pyfloat.splits)

lemma float_of_int_exact:
  assumes "0 < n" and "n < 2 ^ 53"
  shows "float_of_int n = Inr (Fin (of_int n))"
proof -
  define q :: rat where "q = of_int n"
  have q: "0 < q" "1 \<le> q" using assms(1) by (simp_all add: q_def)
  define e where "e = ilog2 q"
  have "pow2 0 \<le> q" using q by (simp add: pow2_def)
  then have e0: "0 \<le> e" unfolding e_def by (rule ilog2_ge)
  have "q < pow2 53"
  proof -
    have "(of_int n :: rat) < of_int (2 ^ 53)" using assms(2) by (simp only: of_int_less_iff)
    then show ?thesis by (simp add: q_def pow2_def)
  qed
  then have e53: "e < 53" unfolding e_def by (rule ilog2_less [OF q(1)])
  define ulp where "ulp = pow2 (e - 52)"
  have ulp: "ulp = 1 / 2 ^ nat (52 - e)"
    using e53 by (simp add: ulp_def pow2_def)
  have "q / ulp = of_int (n * 2 ^ nat (52 - e))"
    by (simp add: ulp q_def)
  then have m: "round_half_even (q / ulp) = n * 2 ^ nat (52 - e)"
    by (simp only: round_half_even_of_int)
  have "round_double q = Fin (of_int (n * 2 ^ nat (52 - e)) * ulp)"
    using q e0 e53 by (simp add: round_double_def Let_def e_def [symmetric] ulp_def [symmetric] m max_def)
  also have "of_int (n * 2 ^ nat (52 - e)) * ulp = of_int n"
    by (simp add: ulp)
  finally show ?thesis by (simp add: float_of_int_def q_def)
qed

subsection \<open>Relative error\<close>

lemma u_bounds: "0 < unit_roundoff" "unit_roundoff < 1 / 2"
  by (simp_all add: unit_roundoff_def)

lemma approx_refl: "approx 0 T T"
  by (simp add: approx_def)

lemma approx_zero: "approx k 0 0"
  by (simp add: approx_def)

lemma approx_nonneg: "0 \<le> T \<Longrightarrow> approx k T x \<Longrightarrow> 0 \<le> x"
proof -
  assume T: "0 \<le> T" and a: "approx k T x"
  have "0 \<le> (1 - unit_roundoff) ^ k" using u_bounds by simp
  with T have "0 \<le> T * (1 - unit_roundoff) ^ k" by simp
  with a show ?thesis by (simp add: approx_def)
qed

lemma approx_add: "approx k T x \<Longrightarrow> approx k T' x' \<Longrightarrow> approx k (T + T') (x + x')"
  by (simp add: approx_def distrib_right)

lemma approx_mult:
  assumes T: "0 \<le> T" "0 \<le> T'" and a: "approx j T x" "approx k T' x'"
  shows "approx (j + k) (T * T') (x * x')"
proof -
  have l1: "0 \<le> T * (1 - unit_roundoff) ^ j" and l2: "0 \<le> T' * (1 - unit_roundoff) ^ k"
    using T u_bounds by simp_all
  have x: "0 \<le> x" "0 \<le> x'" using approx_nonneg T a by blast+
  have "(T * (1 - unit_roundoff) ^ j) * (T' * (1 - unit_roundoff) ^ k) \<le> x * x'"
    using a l1 l2 x by (intro mult_mono) (simp_all add: approx_def)
  moreover have "x * x' \<le> (T * (1 + unit_roundoff) ^ j) * (T' * (1 + unit_roundoff) ^ k)"
    using a x by (intro mult_mono) (simp_all add: approx_def)
  ultimately show ?thesis
    by (simp add: approx_def power_add mult_ac)
qed

lemma approx_step:
  assumes T: "0 \<le> T" and a: "approx k T x"
    and y: "x * (1 - unit_roundoff) \<le> y" "y \<le> x * (1 + unit_roundoff)"
  shows "approx (Suc k) T y"
proof -
  have "T * (1 - unit_roundoff) ^ k * (1 - unit_roundoff) \<le> x * (1 - unit_roundoff)"
    using a u_bounds by (intro mult_right_mono) (simp_all add: approx_def)
  moreover have "x * (1 + unit_roundoff) \<le> T * (1 + unit_roundoff) ^ k * (1 + unit_roundoff)"
    using a u_bounds by (intro mult_right_mono) (simp_all add: approx_def)
  ultimately show ?thesis using y by (simp add: approx_def mult_ac)
qed

lemma round_double_rel:
  assumes "x = 0 \<or> (pow2 (- 1022) \<le> x \<and> x < pow2 1023)"
  shows "\<exists>y. round_double x = Fin y \<and> x * (1 - unit_roundoff) \<le> y \<and> y \<le> x * (1 + unit_roundoff)"
proof (cases "x = 0")
  case True
  then show ?thesis by (simp add: round_double_0)
next
  case False
  with assms have r: "pow2 (- 1022) \<le> x" "x < pow2 1023" by simp_all
  from round_double_normal [OF r] obtain y where
    y: "round_double x = Fin y" "\<bar>y - x\<bar> \<le> x / 2 ^ 53" by blast
  have "x * (1 - unit_roundoff) = x - x / 2 ^ 53" "x * (1 + unit_roundoff) = x + x / 2 ^ 53"
    by (simp_all add: unit_roundoff_def algebra_simps)
  moreover from y(2) have "y - x \<le> x / 2 ^ 53" "x - y \<le> x / 2 ^ 53"
    by linarith+
  ultimately have "x * (1 - unit_roundoff) \<le> y \<and> y \<le> x * (1 + unit_roundoff)"
    by linarith
  with y(1) show ?thesis by blast
qed

lemma approx_4:
  assumes T: "0 \<le> T" and a: "approx 4 T c"
  shows "\<bar>c - T\<bar> \<le> T / 2 ^ 50"
proof -
  have up: "(1 + unit_roundoff) ^ 4 \<le> 1 + 1 / 2 ^ 50"
    unfolding unit_roundoff_def by code_simp
  have lo: "1 - 1 / 2 ^ 50 \<le> (1 - unit_roundoff) ^ 4"
    unfolding unit_roundoff_def by code_simp
  have "c \<le> T * (1 + unit_roundoff) ^ 4" using a by (simp add: approx_def)
  also have "\<dots> \<le> T * (1 + 1 / 2 ^ 50)" using T up by (rule mult_left_mono [rotated])
  finally have 1: "c \<le> T + T / 2 ^ 50" by (simp add: algebra_simps)
  have "T * (1 - 1 / 2 ^ 50) \<le> T * (1 - unit_roundoff) ^ 4"
    using T lo by (rule mult_left_mono [rotated])
  also have "\<dots> \<le> c" using a by (simp add: approx_def)
  finally have 2: "T - T / 2 ^ 50 \<le> c" by (simp add: algebra_simps)
  from 1 2 show ?thesis by linarith
qed

lemma pow2_numeral_vals:
  "pow2 (- 20) = 1 / 1048576" "pow2 (- 5) = 1 / 32" "pow2 (- 1) = 1 / 2" "pow2 1 = 2" "pow2 0 = 1"
  by (simp_all add: pow2_def)

lemma half_le: "0 \<le> x \<Longrightarrow> x * pow2 (- 1) \<le> x * (1 - unit_roundoff)"
  using u_bounds by (intro mult_left_mono) (simp_all add: pow2_numeral_vals)

lemma twice_ge: "0 \<le> x \<Longrightarrow> x * (1 + unit_roundoff) \<le> x * pow2 1"
  using u_bounds by (intro mult_left_mono) (simp_all add: pow2_numeral_vals)

text \<open>One product \<open>(tokens / 1_000_000) * price\<close>.\<close>

lemma priced_tokens:
  assumes i: "0 \<le> i" "i < 2 ^ 1000"
    and p: "pow2 (- 5) \<le> p" "p \<le> 1" and P: "0 \<le> P" "approx 1 P p"
  shows "\<exists>a x. int_truediv i 1000000 = Inr (Fin a) \<and> fmul (Fin a) (Fin p) = Fin x
           \<and> approx 3 (of_int i / 1000000 * P) x
           \<and> (x = 0 \<or> pow2 (- 27) \<le> x) \<and> x < pow2 1002"
proof (cases "i = 0")
  case True
  then show ?thesis
    by (simp add: int_truediv_def round_double_0 approx_zero pow2_pos)
next
  case False
  define q :: rat where "q = of_int i / 1000000"
  from False i have "1 \<le> i" by simp
  then have "(1::rat) \<le> of_int i" by simp
  then have qlo: "pow2 (- 20) \<le> q"
    by (simp add: q_def pow2_numeral_vals field_simps)
  have "(of_int i :: rat) < of_int (2 ^ 1000)" using i(2) by (simp only: of_int_less_iff)
  then have ihi: "(of_int i :: rat) < pow2 1000" by (simp add: pow2_def)
  have qhi: "q < pow2 1000"
  proof -
    have "q \<le> of_int i" using i(1) by (simp add: q_def field_simps)
    with ihi show ?thesis by linarith
  qed
  have q0: "0 \<le> q" using qlo pow2_pos [of "- 20"] by linarith
  have "pow2 (- 1022) \<le> q" using qlo pow2_mono [of "- 1022" "- 20"] by simp
  moreover have "q < pow2 1023" using qhi pow2_mono [of 1000 1023] by simp
  ultimately obtain a where
    a: "round_double q = Fin a" "q * (1 - unit_roundoff) \<le> a" "a \<le> q * (1 + unit_roundoff)"
    using round_double_rel [of q] by blast
  have aq: "approx 1 q a"
    using approx_step [OF q0 approx_refl a(2,3)] by simp
  have alo: "pow2 (- 21) \<le> a"
  proof -
    have "pow2 (- 21) = pow2 (- 20) * pow2 (- 1)" by (simp add: pow2_add [symmetric])
    also have "\<dots> \<le> q * pow2 (- 1)" using qlo pow2_pos [of "- 1"] by (simp add: mult_right_mono)
    also have "\<dots> \<le> q * (1 - unit_roundoff)" by (rule half_le [OF q0])
    finally show ?thesis using a(2) by linarith
  qed
  have ahi: "a < pow2 1001"
  proof -
    have "a \<le> q * pow2 1" using a(3) twice_ge [OF q0] by linarith
    also have "\<dots> < pow2 1000 * pow2 1" using qhi pow2_pos [of 1] by (simp add: mult_strict_right_mono)
    also have "\<dots> = pow2 1001" by (simp add: pow2_add [symmetric])
    finally show ?thesis .
  qed
  have a0: "0 \<le> a" using alo pow2_pos [of "- 21"] by linarith
  have p0: "0 \<le> p" using p(1) pow2_pos [of "- 5"] by linarith
  define r where "r = a * p"
  have rP: "approx 2 (q * P) r"
    using approx_mult [OF q0 P(1) aq P(2)] by (simp add: r_def numeral_2_eq_2)
  have rlo: "pow2 (- 26) \<le> r"
  proof -
    have "pow2 (- 26) = pow2 (- 21) * pow2 (- 5)" by (simp add: pow2_add [symmetric])
    also have "\<dots> \<le> a * p" using alo p(1) pow2_pos [of "- 21"] pow2_pos [of "- 5"] a0
      by (intro mult_mono) simp_all
    finally show ?thesis by (simp add: r_def)
  qed
  have rhi: "r < pow2 1001"
  proof -
    have "a * p \<le> a * 1" using p(2) a0 by (intro mult_left_mono)
    with ahi show ?thesis by (simp add: r_def)
  qed
  have r0: "0 \<le> r" using rlo pow2_pos [of "- 26"] by linarith
  have "pow2 (- 1022) \<le> r" using rlo pow2_mono [of "- 1022" "- 26"] by simp
  moreover have "r < pow2 1023" using rhi pow2_mono [of 1001 1023] by simp
  ultimately obtain x where
    x: "round_double r = Fin x" "r * (1 - unit_roundoff) \<le> x" "x \<le> r * (1 + unit_roundoff)"
    using round_double_rel [of r] by blast
  have qP0: "0 \<le> q * P" using q0 P(1) by simp
  have xP: "approx 3 (q * P) x"
    using approx_step [OF qP0 rP x(2,3)] by (simp add: numeral_3_eq_3 numeral_2_eq_2)
  have xlo: "pow2 (- 27) \<le> x"
  proof -
    have "pow2 (- 27) = pow2 (- 26) * pow2 (- 1)" by (simp add: pow2_add [symmetric])
    also have "\<dots> \<le> r * pow2 (- 1)" using rlo pow2_pos [of "- 1"] by (simp add: mult_right_mono)
    also have "\<dots> \<le> r * (1 - unit_roundoff)" by (rule half_le [OF r0])
    finally show ?thesis using x(2) by linarith
  qed
  have xhi: "x < pow2 1002"
  proof -
    have "x \<le> r * pow2 1" using x(3) twice_ge [OF r0] by linarith
    also have "\<dots> < pow2 1001 * pow2 1" using rhi pow2_pos [of 1] by (simp add: mult_strict_right_mono)
    also have "\<dots> = pow2 1002" by (simp add: pow2_add [symmetric])
    finally show ?thesis .
  qed
  have "int_truediv i 1000000 = Inr (Fin a)"
    using a(1) by (simp add: int_truediv_def q_def)
  moreover have "fmul (Fin a) (Fin p) = Fin x"
    using x(1) by (simp add: r_def)
  ultimately show ?thesis
    using xP xlo xhi by (auto simp add: q_def)
qed

lemma price_input_val: "PRICE_INPUT_PER_1M = Fin (3602879701896397 / 72057594037927936)"
  unfolding PRICE_INPUT_PER_1M_def by code_simp

lemma price_output_val: "PRICE_OUTPUT_PER_1M = Fin (3602879701896397 / 9007199254740992)"
  unfolding PRICE_OUTPUT_PER_1M_def by code_simp

lemma price_input_approx: "approx 1 (5 / 100) (3602879701896397 / 72057594037927936)"
  unfolding approx_def unit_roundoff_def by code_simp

lemma price_output_approx: "approx 1 (40 / 100) (3602879701896397 / 9007199254740992)"
  unfolding approx_def unit_roundoff_def by code_simp

lemma add_usage_approx:
  assumes i: "0 \<le> i" "i < 2 ^ 1000" and out: "0 \<le> out" "out < 2 ^ 1000"
  shows "\<exists>c. fst (add_usage t i out) = Inr (Fin c) \<and> \<bar>c - exact_cost i out\<bar> \<le> exact_cost i out / 2 ^ 50"
proof -
  define pin :: rat where "pin = 3602879701896397 / 72057594037927936"
  define pout :: rat where "pout = 3602879701896397 / 9007199254740992"
  have pin: "pow2 (- 5) \<le> pin" "pin \<le> 1"
    by (simp_all add: pin_def pow2_numeral_vals)
  have pout: "pow2 (- 5) \<le> pout" "pout \<le> 1"
    by (simp_all add: pout_def pow2_numeral_vals)
  from priced_tokens [OF i pin _ price_input_approx [folded pin_def]]
  obtain a x where
    a: "int_truediv i 1000000 = Inr (Fin a)" and ax: "fmul (Fin a) (Fin pin) = Fin x"
    and x: "approx 3 (of_int i / 1000000 * (5 / 100)) x" "x = 0 \<or> pow2 (- 27) \<le> x" "x < pow2 1002"
    by auto
  from priced_tokens [OF out pout _ price_output_approx [folded pout_def]]
  obtain b y where
    b: "int_truediv out 1000000 = Inr (Fin b)" and bx: "fmul (Fin b) (Fin pout) = Fin y"
    and y: "approx 3 (of_int out / 1000000 * (40 / 100)) y" "y = 0 \<or> pow2 (- 27) \<le> y" "y < pow2 1002"
    by auto
  define T1 :: rat where "T1 = of_int i / 1000000 * (5 / 100)"
  define T2 :: rat where "T2 = of_int out / 1000000 * (40 / 100)"
  have T: "0 \<le> T1" "0 \<le> T2" using i(1) out(1) by (simp_all add: T1_def T2_def)
  have x0: "0 \<le> x" using approx_nonneg [OF T(1)] x(1) by (simp add: T1_def)
  have y0: "0 \<le> y" using approx_nonneg [OF T(2)] y(1) by (simp add: T2_def)
  have s3: "approx 3 (T1 + T2) (x + y)"
    using approx_add x(1) y(1) by (simp add: T1_def T2_def)
  have "x + y = 0 \<or> (pow2 (- 1022) \<le> x + y \<and> x + y < pow2 1023)"
  proof (cases "x + y = 0")
    case True
    then show ?thesis by simp
  next
    case False
    with x0 y0 x(2) y(2) have "pow2 (- 27) \<le> x + y"
      using pow2_pos [of "- 27"] by auto
    then have "pow2 (- 1022) \<le> x + y" using pow2_mono [of "- 1022" "- 27"] by simp
    moreover have "x + y < pow2 1002 * pow2 1" using x(3) y(3) by (simp add: pow2_numeral_vals)
    then have "x + y < pow2 1023"
      using pow2_mono [of 1003 1023] by (simp add: pow2_add [symmetric])
    ultimately show ?thesis by simp
  qed
  from round_double_rel [OF this] obtain c where
    c: "round_double (x + y) = Fin c" "(x + y) * (1 - unit_roundoff) \<le> c" "c \<le> (x + y) * (1 + unit_roundoff)"
    by blast
  have T12: "0 \<le> T1 + T2" using T by simp
  have "approx 4 (T1 + T2) c"
    using approx_step [OF T12 s3 c(2,3)] by (simp add: eval_nat_numeral)
  then have "\<bar>c - (T1 + T2)\<bar> \<le> (T1 + T2) / 2 ^ 50"
    by (rule approx_4 [OF T12])
  moreover have "T1 + T2 = exact_cost i out"
    by (simp add: T1_def T2_def exact_cost_def)
  moreover have "fst (add_usage t i out) = Inr (Fin c)"
    using a b ax bx c(1)
    by (simp add: add_usage_def Let_def price_input_val price_output_val pin_def pout_def)
  ultimately show ?thesis by auto
qed

section \<open>The cost tracker\<close>

lemma add_usage_counters:
  "total_input_tokens (snd (add_usage t i out)) = total_input_tokens t + i"
  "total_output_tokens (snd (add_usage t i out)) = total_output_tokens t + out"
  by (simp_all add: add_usage_def Let_def split: sum.splits)

lemma add_usage_Inr:
  assumes "add_usage t i out = (Inr c, t')"
  shows "resume_costs t' = resume_costs t @ [c]"
    and "total_input_tokens t' = total_input_tokens t + i"
    and "total_output_tokens t' = total_output_tokens t + out"
  using assms by (auto simp add: add_usage_def Let_def split: sum.splits)

lemma add_usages_Inr:
  "add_usages t calls = (Inr cs, t') \<Longrightarrow>
     length cs = length calls
     \<and> resume_costs t' = resume_costs t @ cs
     \<and> total_input_tokens t' = total_input_tokens t + sum_list (map fst calls)
     \<and> total_output_tokens t' = total_output_tokens t + sum_list (map snd calls)"
proof (induction calls arbitrary: t cs)
  case Nil
  then show ?case by simp
next
  case (Cons call calls)
  obtain i out where call: "call = (i, out)" by (cases call)
  from Cons.prems call obtain c t1 cs1 where
    step: "add_usage t i out = (Inr c, t1)" and
    rest: "add_usages t1 calls = (Inr cs1, t')" and
    cs: "cs = c # cs1"
    by (auto split: prod.splits sum.splits)
  from Cons.IH [OF rest] add_usage_Inr [OF step] cs call show ?case
    by simp
qed

lemma add_usages_take:
  "add_usages t calls = (Inr cs, t') \<Longrightarrow>
     \<exists>tn. add_usages t (take n calls) = (Inr (take n cs), tn)"
proof (induction calls arbitrary: t cs n)
  case Nil
  then show ?case by simp
next
  case (Cons call calls)
  obtain i out where call: "call = (i, out)" by (cases call)
  from Cons.prems call obtain c t1 cs1 where
    step: "add_usage t i out = (Inr c, t1)" and
    rest: "add_usages t1 calls = (Inr cs1, t')" and
    cs: "cs = c # cs1"
    by (auto split: prod.splits sum.splits)
  show ?case
  proof (cases n)
    case 0
    then show ?thesis by simp
  next
    case (Suc k)
    from Cons.IH [OF rest, of k] obtain tk where
      "add_usages t1 (take k calls) = (Inr (take k cs1), tk)" by blast
    with step cs call Suc show ?thesis by simp
  qed
qed

lemma sum_list_take_mono:
  fixes xs :: "int list"
  assumes "\<forall>x\<in>set xs. 0 \<le> x" and "m \<le> n"
  shows "sum_list (take m xs) \<le> sum_list (take n xs)"
proof -
  from \<open>m \<le> n\<close> have "take n xs = take m xs @ take (n - m) (drop m xs)"
    by (metis le_add_diff_inverse take_add)
  moreover have "0 \<le> sum_list (take (n - m) (drop m xs))"
    using assms(1) by (intro sum_list_nonneg) (auto dest!: in_set_takeD in_set_dropD)
  ultimately show ?thesis by simp
qed

lemma total_cost_append: "total_cost (t\<lparr>resume_costs := resume_costs t @ [c]\<rparr>) = fadd (total_cost t) c"
  by (simp add: total_cost_def py_sum_def)

lemma avg_cost_empty: "resume_costs t = [] \<Longrightarrow> avg_cost t = Inr (Fin 0)"
  by (simp add: avg_cost_def)

lemma add_usages_append_snd:
  "snd (add_usages t (xs @ ys)) =
     (case add_usages t xs of (Inl e, t1) \<Rightarrow> t1 | (Inr cs, t1) \<Rightarrow> snd (add_usages t1 ys))"
proof (induction xs arbitrary: t)
  case Nil
  then show ?case by (simp split: prod.splits)
next
  case (Cons call xs)
  obtain i out where call: "call = (i, out)" by (cases call)
  obtain r t1 where step: "add_usage t i out = (r, t1)" by (cases "add_usage t i out")
  show ?case
  proof (cases r)
    case (Inl e)
    with call step show ?thesis by simp
  next
    case (Inr c)
    obtain r2 t2 where a2: "add_usages t1 xs = (r2, t2)" by (cases "add_usages t1 xs")
    obtain r3 t3 where a3: "add_usages t1 (xs @ ys) = (r3, t3)" by (cases "add_usages t1 (xs @ ys)")
    from Cons.IH [of t1] a2 a3
    have "t3 = (case r2 of Inl e \<Rightarrow> t2 | Inr cs \<Rightarrow> snd (add_usages t2 ys))"
      by (simp split: sum.splits)
    with call step Inr a2 a3 show ?thesis
      by (simp split: sum.splits)
  qed
qed

lemma add_usages_counters_mono:
  assumes "\<forall>(i, out) \<in> set calls. 0 \<le> i \<and> 0 \<le> out"
  shows "total_input_tokens t \<le> total_input_tokens (snd (add_usages t calls))
       \<and> total_output_tokens t \<le> total_output_tokens (snd (add_usages t calls))"
  using assms
proof (induction calls arbitrary: t)
  case Nil
  then show ?case by simp
next
  case (Cons call calls)
  obtain i out where call: "call = (i, out)" by (cases call)
  with Cons.prems have io: "0 \<le> i" "0 \<le> out" by simp_all
  obtain r t1 where step: "add_usage t i out = (r, t1)" by (cases "add_usage t i out")
  have t1: "total_input_tokens t1 = total_input_tokens t + i"
    "total_output_tokens t1 = total_output_tokens t + out"
    using add_usage_counters [of t i out] step by simp_all
  from Cons.prems have "\<forall>(i, out) \<in> set calls. 0 \<le> i \<and> 0 \<le> out" by simp
  from Cons.IH [OF this, of t1] t1 io step call show ?case
    by (auto split: prod.splits sum.splits)
qed

lemma tracker_after_mono:
  assumes nonneg: "\<forall>(i, out) \<in> set calls. 0 \<le> i \<and> 0 \<le> out" and mn: "m \<le> n"
  shows "total_input_tokens (tracker_after t calls m) \<le> total_input_tokens (tracker_after t calls n)
       \<and> total_output_tokens (tracker_after t calls m) \<le> total_output_tokens (tracker_after t calls n)"
proof -
  define xs ys where "xs = take m calls" and "ys = take (n - m) (drop m calls)"
  from mn have split: "take n calls = xs @ ys"
    unfolding xs_def ys_def by (metis le_add_diff_inverse take_add)
  have ys: "\<forall>(i, out) \<in> set ys. 0 \<le> i \<and> 0 \<le> out"
    using nonneg unfolding ys_def by (auto dest!: in_set_takeD in_set_dropD)
  obtain r t1 where run: "add_usages t xs = (r, t1)" by (cases "add_usages t xs")
  show ?thesis
  proof (cases r)
    case (Inl e)
    with run show ?thesis
      by (simp add: tracker_after_def split add_usages_append_snd xs_def [symmetric])
  next
    case (Inr cs)
    with run add_usages_counters_mono [OF ys, of t1] show ?thesis
      by (simp add: tracker_after_def split add_usages_append_snd xs_def [symmetric])
  qed
qed

lemma add_usage_returns:
  assumes "0 \<le> i" "i < 2 ^ 1000" "0 \<le> out" "out < 2 ^ 1000"
  shows "\<exists>c t'. add_usage t i out = (Inr c, t')"
proof -
  from add_usage_approx [OF assms, of t] obtain c where "fst (add_usage t i out) = Inr (Fin c)"
    by blast
  then show ?thesis by (cases "add_usage t i out") auto
qed

lemma add_usages_return:
  assumes "\<forall>(i, out) \<in> set calls. 0 \<le> i \<and> i < 2 ^ 1000 \<and> 0 \<le> out \<and> out < 2 ^ 1000"
  shows "\<exists>costs t'. add_usages t calls = (Inr costs, t')"
  using assms
proof (induction calls arbitrary: t)
  case Nil
  then show ?case by simp
next
  case (Cons call calls)
  obtain i out where call: "call = (i, out)" by (cases call)
  with Cons.prems have "0 \<le> i" "i < 2 ^ 1000" "0 \<le> out" "out < 2 ^ 1000" by simp_all
  from add_usage_returns [OF this, of t] obtain c t1 where
    step: "add_usage t i out = (Inr c, t1)" by blast
  from Cons.prems have "\<forall>(i, out) \<in> set calls. 0 \<le> i \<and> i < 2 ^ 1000 \<and> 0 \<le> out \<and> out < 2 ^ 1000"
    by simp
  from Cons.IH [OF this, of t1] obtain cs t' where "add_usages t1 calls = (Inr cs, t')" by blast
  with step call show ?case by simp
qed

theorem cost_tracker_accumulates:
  assumes nonneg: "\<forall>(i, out) \<in> set calls. 0 \<le> i \<and> 0 \<le> out"
  shows "(\<forall>costs t'. add_usages new_CostTracker calls = (Inr costs, t') \<longrightarrow>
            length costs = length calls
          \<and> resume_costs t' = costs
          \<and> total_cost t' = py_sum costs
          \<and> total_input_tokens t' = sum_list (map fst calls)
          \<and> total_output_tokens t' = sum_list (map snd calls)
          \<and> (\<forall>n \<le> length calls.
                 resume_costs (tracker_after new_CostTracker calls n) = take n costs
               \<and> total_cost (tracker_after new_CostTracker calls n) = py_sum (take n costs)
               \<and> total_input_tokens (tracker_after new_CostTracker calls n) = sum_list (map fst (take n calls))
               \<and> total_output_tokens (tracker_after new_CostTracker calls n) = sum_list (map snd (take n calls))))
       \<and> (\<forall>m n. m \<le> n \<longrightarrow>
              total_input_tokens (tracker_after new_CostTracker calls m)
                \<le> total_input_tokens (tracker_after new_CostTracker calls n)
            \<and> total_output_tokens (tracker_after new_CostTracker calls m)
                \<le> total_output_tokens (tracker_after new_CostTracker calls n))
       \<and> ((\<forall>(i, out) \<in> set calls. i < 2 ^ 1000 \<and> out < 2 ^ 1000) \<longrightarrow>
             (\<exists>costs t'. add_usages new_CostTracker calls = (Inr costs, t')))"
proof (intro conjI allI impI)
  fix costs t'
  assume run: "add_usages new_CostTracker calls = (Inr costs, t')"
  from add_usages_Inr [OF run]
  show "length costs = length calls" "resume_costs t' = costs"
    "total_input_tokens t' = sum_list (map fst calls)"
    "total_output_tokens t' = sum_list (map snd calls)"
    by (simp_all add: new_CostTracker_def)
  then show "total_cost t' = py_sum costs"
    by (simp add: total_cost_def)
  fix n
  assume "n \<le> length calls"
  from add_usages_take [OF run, of n] obtain tn where
    tn: "add_usages new_CostTracker (take n calls) = (Inr (take n costs), tn)" by blast
  then have after: "tracker_after new_CostTracker calls n = tn"
    by (simp add: tracker_after_def)
  from add_usages_Inr [OF tn]
  have "resume_costs tn = take n costs"
    "total_input_tokens tn = sum_list (map fst (take n calls))"
    "total_output_tokens tn = sum_list (map snd (take n calls))"
    by (simp_all add: new_CostTracker_def)
  then show "resume_costs (tracker_after new_CostTracker calls n) = take n costs"
    "total_input_tokens (tracker_after new_CostTracker calls n) = sum_list (map fst (take n calls))"
    "total_output_tokens (tracker_after new_CostTracker calls n) = sum_list (map snd (take n calls))"
    by (simp_all only: after)
  then show "total_cost (tracker_after new_CostTracker calls n) = py_sum (take n costs)"
    by (simp add: total_cost_def)
next
  fix m n :: nat
  assume "m \<le> n"
  from tracker_after_mono [OF nonneg this, of new_CostTracker]
  show "total_input_tokens (tracker_after new_CostTracker calls m)
          \<le> total_input_tokens (tracker_after new_CostTracker calls n)"
    "total_output_tokens (tracker_after new_CostTracker calls m)
          \<le> total_output_tokens (tracker_after new_CostTracker calls n)"
    by simp_all
next
  assume "\<forall>(i, out) \<in> set calls. i < 2 ^ 1000 \<and> out < 2 ^ 1000"
  with nonneg have "\<forall>(i, out) \<in> set calls. 0 \<le> i \<and> i < 2 ^ 1000 \<and> 0 \<le> out \<and> out < 2 ^ 1000"
    by auto
  then show "\<exists>costs t'. add_usages new_CostTracker calls = (Inr costs, t')"
    by (rule add_usages_return)
qed

lemma three_calls:
  "add_usages new_CostTracker [(100, 50), (100, 50), (100, 50)] =
     (Inr [Fin (7378697629483821 / 295147905179352825856),
           Fin (7378697629483821 / 295147905179352825856),
           Fin (7378697629483821 / 295147905179352825856)],
      \<lparr>total_input_tokens = 300, total_output_tokens = 150,
       resume_costs = [Fin (7378697629483821 / 295147905179352825856),
           Fin (7378697629483821 / 295147905179352825856),
           Fin (7378697629483821 / 295147905179352825856)]\<rparr>)"
  by code_simp

theorem cost_tracker_accumulates_witness:
  "total_input_tokens (snd (add_usages new_CostTracker [(100, 50), (100, 50), (100, 50)])) = 300
   \<and> total_output_tokens (snd (add_usages new_CostTracker [(100, 50), (100, 50), (100, 50)])) = 150
   \<and> length (resume_costs (snd (add_usages new_CostTracker [(100, 50), (100, 50), (100, 50)]))) = 3
   \<and> total_cost (snd (add_usages new_CostTracker [(100, 50), (100, 50), (100, 50)]))
       = py_sum [Fin (7378697629483821 / 295147905179352825856),
           Fin (7378697629483821 / 295147905179352825856),
           Fin (7378697629483821 / 295147905179352825856)]"
proof -
  have nonneg: "\<forall>(i, out) \<in> set [(100, 50), (100, 50), (100::int, 50::int)]. 0 \<le> i \<and> 0 \<le> out"
    by simp
  from cost_tracker_accumulates [OF nonneg] three_calls
  show ?thesis by simp
qed

lemma million_tokens:
  "int_truediv 1000000 1000000 = Inr (Fin 1)" "int_truediv 0 1000000 = Inr (Fin 0)"
  by code_simp+

lemma price_times_one:
  "fmul (Fin 1) PRICE_INPUT_PER_1M = PRICE_INPUT_PER_1M"
  "fmul (Fin 1) PRICE_OUTPUT_PER_1M = PRICE_OUTPUT_PER_1M"
  by code_simp+

lemma price_times_zero:
  "fmul (Fin 0) PRICE_INPUT_PER_1M = Fin 0"
  "fmul (Fin 0) PRICE_OUTPUT_PER_1M = Fin 0"
  by code_simp+

lemma price_plus_zero:
  "fadd PRICE_INPUT_PER_1M (Fin 0) = PRICE_INPUT_PER_1M"
  "fadd (Fin 0) PRICE_OUTPUT_PER_1M = PRICE_OUTPUT_PER_1M"
  by code_simp+

theorem add_usage_cost:
  "(\<forall>a b. int_truediv i 1000000 = Inr a \<and> int_truediv out 1000000 = Inr b \<longrightarrow>
      fst (add_usage t i out)
        = Inr (fadd (fmul a PRICE_INPUT_PER_1M) (fmul b PRICE_OUTPUT_PER_1M)))
   \<and> (0 \<le> i \<and> i < 2 ^ 1000 \<and> 0 \<le> out \<and> out < 2 ^ 1000 \<longrightarrow>
        (\<exists>c. fst (add_usage t i out) = Inr (Fin c)
           \<and> \<bar>c - exact_cost i out\<bar> \<le> exact_cost i out / 2 ^ 50))
   \<and> fst (add_usage t 1000000 0) = Inr PRICE_INPUT_PER_1M
   \<and> fst (add_usage t 0 1000000) = Inr PRICE_OUTPUT_PER_1M"
proof (intro conjI allI impI)
  fix a b
  assume "int_truediv i 1000000 = Inr a \<and> int_truediv out 1000000 = Inr b"
  then show "fst (add_usage t i out)
        = Inr (fadd (fmul a PRICE_INPUT_PER_1M) (fmul b PRICE_OUTPUT_PER_1M))"
    by (simp add: add_usage_def Let_def)
next
  assume "0 \<le> i \<and> i < 2 ^ 1000 \<and> 0 \<le> out \<and> out < 2 ^ 1000"
  then show "\<exists>c. fst (add_usage t i out) = Inr (Fin c)
           \<and> \<bar>c - exact_cost i out\<bar> \<le> exact_cost i out / 2 ^ 50"
    using add_usage_approx [of i out t] by simp
next
  show "fst (add_usage t 1000000 0) = Inr PRICE_INPUT_PER_1M"
    by (simp add: add_usage_def Let_def million_tokens price_times_one price_times_zero price_plus_zero)
  show "fst (add_usage t 0 1000000) = Inr PRICE_OUTPUT_PER_1M"
    by (simp add: add_usage_def Let_def million_tokens price_times_one price_times_zero price_plus_zero)
qed

theorem add_usage_cost_witness:
  "fst (add_usage new_CostTracker 100 50) = Inr (Fin (7378697629483821 / 295147905179352825856))
   \<and> \<bar>7378697629483821 / 295147905179352825856 - exact_cost 100 50\<bar> \<le> exact_cost 100 50 / 2 ^ 50
   \<and> exact_cost 100 50 = 1 / 40000"
proof -
  have val: "fst (add_usage new_CostTracker 100 50) = Inr (Fin (7378697629483821 / 295147905179352825856))"
    by code_simp
  have "(0::int) \<le> 100 \<and> (100::int) < 2 ^ 1000 \<and> (0::int) \<le> 50 \<and> (50::int) < 2 ^ 1000"
    by simp
  with add_usage_cost [of 100 50 new_CostTracker]
  obtain c where c: "fst (add_usage new_CostTracker 100 50) = Inr (Fin c)"
      "\<bar>c - exact_cost 100 50\<bar> \<le> exact_cost 100 50 / 2 ^ 50"
    by blast
  from c(1) have "c = 7378697629483821 / 295147905179352825856"
    unfolding val by (simp only: sum.inject pyfloat.inject)
  with c(2)
  have "\<bar>7378697629483821 / 295147905179352825856 - exact_cost 100 50\<bar> \<le> exact_cost 100 50 / 2 ^ 50"
    by (simp only:)
  moreover have "exact_cost 100 50 = 1 / 40000"
    by (simp add: exact_cost_def)
  ultimately show ?thesis using val by simp
qed

theorem avg_cost_safe:
  "(resume_costs t = [] \<longrightarrow> avg_cost t = Inr (Fin 0))
   \<and> avg_cost t \<noteq> Inl ZeroDivisionError
   \<and> (resume_costs t \<noteq> [] \<longrightarrow>
        avg_cost t = (case float_of_int (int (length (resume_costs t))) of
                        Inl e \<Rightarrow> Inl e
                      | Inr n \<Rightarrow> Inr (fquot (total_cost t) n)))
   \<and> (resume_costs t \<noteq> [] \<and> length (resume_costs t) < 2 ^ 53 \<longrightarrow>
        avg_cost t = Inr (fquot (total_cost t) (Fin (of_nat (length (resume_costs t))))))"
proof (intro conjI impI)
  show "avg_cost t = Inr (Fin 0)" if "resume_costs t = []"
    using that by (simp add: avg_cost_def)
  have nz: "float_of_int (int (length (resume_costs t))) \<noteq> Inr (Fin 0)" if "resume_costs t \<noteq> []"
    using that by (intro float_of_int_nonzero) (simp add: Suc_le_eq)
  have ovf: "float_of_int n \<noteq> Inl ZeroDivisionError" for n
    by (simp add: float_of_int_def split: pyfloat.splits)
  show gen: "avg_cost t = (case float_of_int (int (length (resume_costs t))) of
                        Inl e \<Rightarrow> Inl e
                      | Inr n \<Rightarrow> Inr (fquot (total_cost t) n))" if "resume_costs t \<noteq> []"
    using that nz [OF that] by (auto simp add: avg_cost_def float_truediv_def split: sum.splits)
  show "avg_cost t \<noteq> Inl ZeroDivisionError"
  proof (cases "resume_costs t = []")
    case True
    then show ?thesis by (simp add: avg_cost_def)
  next
    case False
    from gen [OF False] ovf [of "int (length (resume_costs t))"] show ?thesis
      by (auto split: sum.splits)
  qed
  show "avg_cost t = Inr (fquot (total_cost t) (Fin (of_nat (length (resume_costs t)))))"
    if "resume_costs t \<noteq> [] \<and> length (resume_costs t) < 2 ^ 53"
  proof -
    from that have "0 < int (length (resume_costs t))" by simp
    moreover from that have "int (length (resume_costs t)) < 2 ^ 53"
      by (metis of_nat_less_iff of_nat_numeral of_nat_power)
    ultimately have "float_of_int (int (length (resume_costs t))) = Inr (Fin (of_int (int (length (resume_costs t)))))"
      by (rule float_of_int_exact)
    with gen that show ?thesis by simp
  qed
qed

theorem avg_cost_safe_witness:
  "avg_cost new_CostTracker = Inr (Fin 0)
   \<and> avg_cost \<lparr>total_input_tokens = 200, total_output_tokens = 100,
        resume_costs = [Fin (7378697629483821 / 295147905179352825856), Fin (7378697629483821 / 295147905179352825856)]\<rparr>
      = Inr (Fin (7378697629483821 / 295147905179352825856))"
proof -
  define t where "t = \<lparr>total_input_tokens = 200, total_output_tokens = 100,
        resume_costs = [Fin (7378697629483821 / 295147905179352825856), Fin (7378697629483821 / 295147905179352825856)]\<rparr>"
  have "resume_costs new_CostTracker = []" by (simp add: new_CostTracker_def)
  with avg_cost_safe [of new_CostTracker] have 1: "avg_cost new_CostTracker = Inr (Fin 0)" by simp
  have "resume_costs t \<noteq> [] \<and> length (resume_costs t) < 2 ^ 53" by (simp add: t_def)
  with avg_cost_safe [of t]
  have "avg_cost t = Inr (fquot (total_cost t) (Fin (of_nat (length (resume_costs t)))))" by blast
  also have "fquot (total_cost t) (Fin (of_nat (length (resume_costs t)))) = Fin (7378697629483821 / 295147905179352825856)"
    unfolding t_def by code_simp
  finally show ?thesis using 1 by (simp add: t_def)
qed

section \<open>Role selection\<close>

lemma randbelow_less: "0 < n \<Longrightarrow> randbelow n k < n"
  by (simp add: randbelow_def nat_less_iff)

lemma random_choice_member:
  "pool \<noteq> [] \<Longrightarrow> \<exists>x. random_choice pool k = Inr x \<and> x \<in> set pool"
  by (simp add: random_choice_def randbelow_less)

lemma random_choice_empty: "random_choice [] k = Inl IndexError"
  by (simp add: random_choice_def)

lemma random_choice_Inr: "random_choice pool k = Inr x \<Longrightarrow> x \<in> set pool"
  by (cases "pool = []") (auto simp add: random_choice_def randbelow_less)

text \<open>The variate of \<open>random()\<close> is a float in \<open>[0, 1)\<close>, and multiplying it by 1.0 is exact.\<close>

lemma round_double_unit:
  assumes "0 \<le> k" and "k < 2 ^ 53"
  shows "round_double (of_int k / 2 ^ 53) = Fin (of_int k / 2 ^ 53)"
proof (cases "k = 0")
  case True
  then show ?thesis by (simp add: round_double_0)
next
  case False
  define q :: rat where "q = of_int k / 2 ^ 53"
  from False assms have k1: "1 \<le> k" by simp
  then have "(1::rat) \<le> of_int k" by simp
  then have qlo: "pow2 (- 53) \<le> q" by (simp add: q_def pow2_def field_simps)
  have "(of_int k :: rat) < of_int (2 ^ 53)" using assms(2) by (simp only: of_int_less_iff)
  then have qhi: "q < pow2 0" by (simp add: q_def pow2_def field_simps)
  have q: "0 < q" using qlo pow2_pos [of "- 53"] by linarith
  define e where "e = ilog2 q"
  have e1: "- 53 \<le> e" unfolding e_def by (rule ilog2_ge [OF qlo])
  have e2: "e < 0" unfolding e_def by (rule ilog2_less [OF q qhi])
  define ulp where "ulp = pow2 (e - 52)"
  have ulp: "ulp = 1 / 2 ^ nat (52 - e)" using e2 by (simp add: ulp_def pow2_def)
  have split: "(2::rat) ^ nat (52 - e) = 2 ^ 53 * 2 ^ nat (- 1 - e)"
  proof -
    have "nat (52 - e) = 53 + nat (- 1 - e)" using e2 by simp
    then show ?thesis by (simp add: power_add)
  qed
  have "q / ulp = of_int (k * 2 ^ nat (- 1 - e))"
    by (simp add: ulp q_def split)
  then have m: "round_half_even (q / ulp) = k * 2 ^ nat (- 1 - e)"
    by (simp only: round_half_even_of_int)
  have "round_double q = Fin (of_int (k * 2 ^ nat (- 1 - e)) * ulp)"
    using q e1 e2 by (simp add: round_double_def Let_def e_def [symmetric] ulp_def [symmetric] m max_def)
  also have "of_int (k * 2 ^ nat (- 1 - e)) * ulp = q"
    by (simp add: ulp q_def split)
  finally show ?thesis by (simp add: q_def)
qed

lemma random_unit_times_one:
  "\<exists>u. fmul (random_unit r) (Fin 1) = Fin u \<and> 0 \<le> u \<and> u < 1"
proof -
  define k where "k = r mod 2 ^ 53"
  have k: "0 \<le> k" "k < 2 ^ 53" by (simp_all add: k_def)
  have "(of_int k :: rat) < of_int (2 ^ 53)" using k(2) by (simp only: of_int_less_iff)
  then have "(of_int k :: rat) / 2 ^ 53 < 1" by simp
  moreover have "(0::rat) \<le> of_int k / 2 ^ 53" using k(1) by simp
  moreover have "fmul (random_unit r) (Fin 1) = Fin (of_int k / 2 ^ 53)"
    using round_double_unit [OF k] by (simp add: random_unit_def k_def)
  ultimately show ?thesis by blast
qed

lemma round_double_1: "round_double 1 = Fin 1"
  using round_double_unit [of "2 ^ 52"] float_of_int_exact [of 1]
  by (simp add: float_of_int_def split: pyfloat.splits)

lemma bisect_primary: "u < 1 \<Longrightarrow> bisect [Fin 1, Fin 1] (Fin u) 0 (Suc 0) = 0"
  by simp

lemma bisect_secondary: "0 \<le> u \<Longrightarrow> bisect [Fin 0, Fin 1] (Fin u) 0 (Suc 0) = Suc 0"
  by simp

lemma choices_index_primary: "choices_index [Fin 1, Fin 0] r = Inr 0"
proof -
  obtain u where u: "fmul (random_unit r) (Fin 1) = Fin u" "0 \<le> u" "u < 1"
    using random_unit_times_one by blast
  then show ?thesis
    by (simp add: choices_index_def accumulate_def round_double_1 round_double_0 fle_def
        bisect_primary Let_def)
qed

lemma choices_index_secondary: "choices_index [Fin 0, Fin 1] r = Inr (Suc 0)"
proof -
  obtain u where u: "fmul (random_unit r) (Fin 1) = Fin u" "0 \<le> u" "u < 1"
    using random_unit_times_one by blast
  then show ?thesis
    by (simp add: choices_index_def accumulate_def round_double_1 round_double_0 fle_def
        bisect_secondary Let_def)
qed

text \<open>
  C6, as amended. For an industry of the table: with weights \<open>[1, 0]\<close> the role is drawn
  from the primary pool, with \<open>[0, 1]\<close> from the secondary pool, whatever the random
  source yields; in general tier 0 draws from the primary pool and every other tier from
  the secondary pool. A role drawn from a non-empty pool is a member of it (an empty pool
  raises IndexError), and a role drawn from the primary pool is outside the secondary pool
  when the two pools share no role.
\<close>

theorem select_role_by_tier:
  assumes "map_of ROLE_MAPPING ind = Some m"
  shows "(weights m = [Fin 1, Fin 0] \<longrightarrow>
            select_role ROLE_MAPPING ind r k = random_choice (primary m) k)
       \<and> (weights m = [Fin 1, Fin 0] \<and> primary m \<noteq> [] \<longrightarrow>
            (\<exists>x. select_role ROLE_MAPPING ind r k = Inr x \<and> x \<in> set (primary m)
               \<and> (set (primary m) \<inter> set (secondary m) = {} \<longrightarrow> x \<notin> set (secondary m))))
       \<and> (weights m = [Fin 0, Fin 1] \<longrightarrow>
            select_role ROLE_MAPPING ind r k = random_choice (secondary m) k)
       \<and> (weights m = [Fin 0, Fin 1] \<and> secondary m \<noteq> [] \<longrightarrow>
            (\<exists>x. select_role ROLE_MAPPING ind r k = Inr x \<and> x \<in> set (secondary m)))
       \<and> (\<forall>tier. choices_index (weights m) r = Inr tier \<longrightarrow>
            select_role ROLE_MAPPING ind r k
              = random_choice (if tier = 0 then primary m else secondary m) k)
       \<and> (\<forall>x. select_role ROLE_MAPPING ind r k = Inr x \<longrightarrow>
            x \<in> set (primary m) \<union> set (secondary m))"
proof (intro conjI allI impI)
  show p: "select_role ROLE_MAPPING ind r k = random_choice (primary m) k"
    if "weights m = [Fin 1, Fin 0]"
    using assms that by (simp add: select_role_def choices_index_primary)
  show "\<exists>x. select_role ROLE_MAPPING ind r k = Inr x \<and> x \<in> set (primary m)
               \<and> (set (primary m) \<inter> set (secondary m) = {} \<longrightarrow> x \<notin> set (secondary m))"
    if "weights m = [Fin 1, Fin 0] \<and> primary m \<noteq> []"
    using that p random_choice_member [of "primary m" k] by auto
  show s: "select_role ROLE_MAPPING ind r k = random_choice (secondary m) k"
    if "weights m = [Fin 0, Fin 1]"
    using assms that by (simp add: select_role_def choices_index_secondary)
  show "\<exists>x. select_role ROLE_MAPPING ind r k = Inr x \<and> x \<in> set (secondary m)"
    if "weights m = [Fin 0, Fin 1] \<and> secondary m \<noteq> []"
    using that s random_choice_member [of "secondary m" k] by auto
  show "select_role ROLE_MAPPING ind r k
              = random_choice (if tier = 0 then primary m else secondary m) k"
    if "choices_index (weights m) r = Inr tier" for tier
    using assms that by (simp add: select_role_def)
  show "x \<in> set (primary m) \<union> set (secondary m)"
    if "select_role ROLE_MAPPING ind r k = Inr x" for x
    using assms that
    by (auto simp add: select_role_def split: sum.splits if_splits dest: random_choice_Inr)
qed

theorem select_role_by_tier_witness:
  "\<exists>x. select_role
          [(''Technology'', \<lparr>primary = [''Software Engineer'', ''Data Scientist''],
                             secondary = [''Product Manager''], weights = [Fin 1, Fin 0]\<rparr>)]
          ''Technology'' 12345 3 = Inr x
       \<and> x \<in> {''Software Engineer'', ''Data Scientist''} \<and> x \<noteq> ''Product Manager''"
proof -
  define m where "m = \<lparr>primary = [''Software Engineer'', ''Data Scientist''],
                             secondary = [''Product Manager''], weights = [Fin 1, Fin 0]\<rparr>"
  have look: "map_of [(''Technology'', m)] ''Technology'' = Some m" by simp
  have hyp: "weights m = [Fin 1, Fin 0] \<and> primary m \<noteq> []" by (simp add: m_def)
  have disj: "set (primary m) \<inter> set (secondary m) = {}" by (simp add: m_def)
  from select_role_by_tier [OF look, of 12345 3] hyp disj
  obtain x where "select_role [(''Technology'', m)] ''Technology'' 12345 3 = Inr x"
    "x \<in> set (primary m)" "x \<notin> set (secondary m)" by blast
  then show ?thesis unfolding m_def by auto
qed

text \<open>
  The claim as stated fails where a role stands in both pools: with weights \<open>[1, 0]\<close>
  the role returned is then a member of the secondary pool.
\<close>

theorem select_role_shared_role_counterexample:
  "select_role
     [(''Technology'', \<lparr>primary = [''Engineer''], secondary = [''Engineer'', ''Manager''],
                        weights = [Fin 1, Fin 0]\<rparr>)]
     ''Technology'' 0 0 = Inr ''Engineer''
   \<and> ''Engineer'' \<in> set (secondary \<lparr>primary = [''Engineer''], secondary = [''Engineer'', ''Manager''],
                        weights = [Fin 1, Fin 0]\<rparr>)"
  by (simp add: select_role_def choices_index_primary random_choice_def randbelow_def)

section \<open>The slot pool\<close>

lemma filter_update_length:
  "i < length xs \<Longrightarrow>
     length (filter P (xs[i := y])) + (if P (xs ! i) then 1 else 0)
       = length (filter P xs) + (if P y then 1 else 0)"
proof (induction xs arbitrary: i)
  case Nil
  then show ?case by simp
next
  case (Cons x xs)
  show ?case
  proof (cases i)
    case 0
    then show ?thesis by simp
  next
    case (Suc j)
    with Cons.prems have "j < length xs" by simp
    from Cons.IH [OF this] Suc show ?thesis by simp
  qed
qed

lemma holding_set_phase:
  "i < length (jobs s) \<Longrightarrow>
     holding (set_phase s i p) + (if is_holding (snd (jobs s ! i)) then 1 else 0)
       = holding s + (if is_holding p then 1 else 0)"
  using filter_update_length [of i "jobs s" "\<lambda>j. is_holding (snd j)" "(fst (jobs s ! i), p)"]
  by (simp add: holding_def set_phase_def)

lemma holding_frame [simp]:
  "holding (s\<lparr>sem_value := v\<rparr>) = holding s"
  "holding (s\<lparr>tracker := t\<rparr>) = holding s"
  "holding (s\<lparr>written := w\<rparr>) = holding s"
  "holding (s\<lparr>advanced := a\<rparr>) = holding s"
  "holding (s\<lparr>first_error := fe\<rparr>) = holding s"
  by (simp_all add: holding_def)

lemma set_phase_frame [simp]:
  "sem_value (set_phase s i p) = sem_value s"
  "tracker (set_phase s i p) = tracker s"
  "written (set_phase s i p) = written s"
  "advanced (set_phase s i p) = advanced s"
  "first_error (set_phase s i p) = first_error s"
  "length (jobs (set_phase s i p)) = length (jobs s)"
  by (simp_all add: set_phase_def)

lemma set_phase_indices [simp]: "map fst (jobs (set_phase s i p)) = map fst (jobs s)"
proof (cases "i < length (jobs s)")
  case True
  then have "(map fst (jobs s))[i := fst (jobs s ! i)] = map fst (jobs s)"
    by (simp add: list_update_same_conv)
  then show ?thesis by (simp add: set_phase_def map_update)
next
  case False
  then have "(jobs s)[i := (fst (jobs s ! i), p)] = jobs s"
    by (simp add: list_update_beyond)
  then show ?thesis by (simp add: set_phase_def)
qed

lemma set_phase_nth:
  "i < length (jobs s) \<Longrightarrow> jobs (set_phase s i p) ! i = (fst (jobs s ! i), p)"
  "j \<noteq> i \<Longrightarrow> jobs (set_phase s i p) ! j = jobs s ! j"
  by (simp_all add: set_phase_def)

lemma fail_frame [simp]:
  "sem_value (fail s i e) = sem_value s"
  "tracker (fail s i e) = tracker s"
  "written (fail s i e) = written s"
  "advanced (fail s i e) = advanced s"
  "length (jobs (fail s i e)) = length (jobs s)"
  "map fst (jobs (fail s i e)) = map fst (jobs s)"
  "jobs (fail s i e) = jobs (set_phase s i (Failed e))"
  "first_error (fail s i e) \<noteq> None"
  by (simp_all add: fail_def split: option.splits)

lemma holding_fail:
  "i < length (jobs s) \<Longrightarrow>
     holding (fail s i e) + (if is_holding (snd (jobs s ! i)) then 1 else 0) = holding s"
  using holding_set_phase [of i s "Failed e"] by (simp add: fail_def)

lemma release_frame [simp]:
  "sem_value (release s) = sem_value s + 1"
  "jobs (release s) = jobs s"
  "tracker (release s) = tracker s"
  "written (release s) = written s"
  "advanced (release s) = advanced s"
  "first_error (release s) = first_error s"
  "holding (release s) = holding s"
  by (simp_all add: release_def)

lemma acquire_frame [simp]:
  "sem_value (acquire s) = sem_value s - 1"
  "jobs (acquire s) = jobs s"
  "tracker (acquire s) = tracker s"
  "written (acquire s) = written s"
  "advanced (acquire s) = advanced s"
  "first_error (acquire s) = first_error s"
  "holding (acquire s) = holding s"
  by (simp_all add: acquire_def)

text \<open>What each kind of event does, by the phase of its job.\<close>

lemma step_Enter_disabled:
  "\<not> (i < length (jobs s) \<and> snd (jobs s ! i) = Waiting \<and> 0 < sem_value s) \<Longrightarrow>
     step loads RM s (Enter i d) = s"
  by (auto simp add: step_def)

lemma step_Enter_cases:
  assumes "i < length (jobs s)" "snd (jobs s ! i) = Waiting" "0 < sem_value s"
  shows "(\<exists>e. step loads RM s (Enter i d) = release (fail (acquire s) i e))
       \<or> (\<exists>req. step loads RM s (Enter i d) = set_phase (acquire s) i (Holding req))"
  using assms by (auto simp add: step_def split: sum.splits)

lemma step_Settle_disabled:
  "\<not> (i < length (jobs s) \<and> is_holding (snd (jobs s ! i))) \<Longrightarrow>
     step loads RM s (Settle i outcome ok) = s"
  by (cases "snd (jobs s ! i)") (simp_all add: step_def)

lemma step_Settle_cases:
  assumes "i < length (jobs s)" "snd (jobs s ! i) = Holding req"
  shows "(\<exists>e t. step loads RM s (Settle i outcome ok) = release (fail (s\<lparr>tracker := t\<rparr>) i e)
            \<and> fst (finish_job loads req (fst (jobs s ! i)) (tracker s) outcome ok) = Inl e
            \<and> fst (snd (finish_job loads req (fst (jobs s ! i)) (tracker s) outcome ok)) = t)
       \<or> (\<exists>idx cost t files units.
            finish_job loads req (fst (jobs s ! i)) (tracker s) outcome ok
              = (Inr (idx, cost), t, files, units)
            \<and> step loads RM s (Settle i outcome ok)
              = release (set_phase (s\<lparr>tracker := t, written := written s @ files,
                                      advanced := advanced s + units\<rparr>) i (Done idx cost)))"
  using assms by (auto simp add: step_def split: sum.splits prod.splits)

lemma step_Cancel_cases:
  "step loads RM s (Cancel i) =
     (if i < length (jobs s) \<and> snd (jobs s ! i) = Waiting then fail s i CancelledError
      else if i < length (jobs s) \<and> is_holding (snd (jobs s ! i))
      then release (fail s i CancelledError)
      else s)"
  by (cases "snd (jobs s ! i)") (simp_all add: step_def)

lemma step_slots:
  "sem_value (step loads RM s ev) + holding (step loads RM s ev) = sem_value s + holding s"
proof (cases ev)
  case (Enter i d)
  show ?thesis
  proof (cases "i < length (jobs s) \<and> snd (jobs s ! i) = Waiting \<and> 0 < sem_value s")
    case False
    then show ?thesis by (simp add: Enter step_Enter_disabled)
  next
    case True
    then have en: "i < length (jobs s)" "snd (jobs s ! i) = Waiting" "0 < sem_value s" by simp_all
    have ia: "i < length (jobs (acquire s))" using en by simp
    from step_Enter_cases [OF en, of loads RM d] show ?thesis
    proof (elim disjE exE)
      fix e assume "step loads RM s (Enter i d) = release (fail (acquire s) i e)"
      with holding_fail [OF ia, of e] en show ?thesis by (simp add: Enter)
    next
      fix req assume "step loads RM s (Enter i d) = set_phase (acquire s) i (Holding req)"
      with holding_set_phase [OF ia, of "Holding req"] en show ?thesis by (simp add: Enter)
    qed
  qed
next
  case (Settle i outcome ok)
  show ?thesis
  proof (cases "i < length (jobs s) \<and> is_holding (snd (jobs s ! i))")
    case False
    then show ?thesis by (simp add: Settle step_Settle_disabled)
  next
    case True
    then obtain req where en: "i < length (jobs s)" "snd (jobs s ! i) = Holding req"
      by (cases "snd (jobs s ! i)") auto
    from step_Settle_cases [OF en, of loads RM outcome ok] show ?thesis
    proof (elim disjE exE conjE)
      fix e t assume st: "step loads RM s (Settle i outcome ok) = release (fail (s\<lparr>tracker := t\<rparr>) i e)"
      have "i < length (jobs (s\<lparr>tracker := t\<rparr>))" using en by simp
      from holding_fail [OF this, of e] en st show ?thesis by (simp add: Settle)
    next
      fix idx cost t files units
      assume st: "step loads RM s (Settle i outcome ok)
              = release (set_phase (s\<lparr>tracker := t, written := written s @ files,
                                      advanced := advanced s + units\<rparr>) i (Done idx cost))"
      have "i < length (jobs (s\<lparr>tracker := t, written := written s @ files,
                                      advanced := advanced s + units\<rparr>))" using en by simp
      from holding_set_phase [OF this, of "Done idx cost"] en st show ?thesis
        by (simp add: Settle)
    qed
  qed
next
  case (Cancel i)
  show ?thesis
  proof (cases "i < length (jobs s)")
    case False
    then show ?thesis by (simp add: Cancel step_Cancel_cases)
  next
    case True
    from holding_fail [OF True, of CancelledError] show ?thesis
      by (cases "snd (jobs s ! i)") (auto simp add: Cancel step_Cancel_cases)
  qed
qed

lemma exec_slots:
  "sem_value (exec loads RM s evs) + holding (exec loads RM s evs) = sem_value s + holding s"
  unfolding exec_def
  by (induction evs arbitrary: s) (simp_all add: step_slots)

lemma holding_initial: "holding (initial_state total_count concurrency) = 0"
  by (simp add: holding_def initial_state_def filter_empty_conv)

lemma holding_settled: "all_settled s \<Longrightarrow> holding s = 0"
proof -
  assume "all_settled s"
  then have "\<forall>j \<in> set (jobs s). is_settled (snd j)"
    by (simp add: all_settled_def list_all_iff)
  moreover have "is_settled p \<Longrightarrow> \<not> is_holding p" for p
    by (cases p) simp_all
  ultimately have "\<forall>j \<in> set (jobs s). \<not> is_holding (snd j)"
    by blast
  then show ?thesis by (simp add: holding_def filter_empty_conv)
qed

lemma build_prompt_case [simp]:
  "(case build_prompt ind rol sen of Inl e \<Rightarrow> f e | Inr prompts \<Rightarrow> g) = g"
  using build_prompt_total [of ind rol sen] by auto

lemma step_Enter_ok:
  assumes "i < length (jobs s)" "snd (jobs s ! i) = Waiting" "0 < sem_value s"
    and "draw_request RM d = Inr req"
  shows "step loads RM s (Enter i d) = set_phase (acquire s) i (Holding req)"
  using assms by (simp add: step_def)

lemma step_Enter_fail:
  assumes "i < length (jobs s)" "snd (jobs s ! i) = Waiting" "0 < sem_value s"
    and "draw_request RM d = Inl e"
  shows "step loads RM s (Enter i d) = release (fail (acquire s) i e)"
  using assms by (simp add: step_def)

lemma step_Settle_ok:
  assumes "i < length (jobs s)" "snd (jobs s ! i) = Holding req"
    and "finish_job loads req (fst (jobs s ! i)) (tracker s) outcome ok
           = (Inr (idx, cost), t, files, units)"
  shows "step loads RM s (Settle i outcome ok)
           = release (set_phase (s\<lparr>tracker := t, written := written s @ files,
                                    advanced := advanced s + units\<rparr>) i (Done idx cost))"
  using assms by (simp add: step_def)

lemma step_Settle_fail:
  assumes "i < length (jobs s)" "snd (jobs s ! i) = Holding req"
    and "finish_job loads req (fst (jobs s ! i)) (tracker s) outcome ok = (Inl e, t, files, units)"
  shows "step loads RM s (Settle i outcome ok) = release (fail (s\<lparr>tracker := t\<rparr>) i e)"
  using assms by (simp add: step_def)

lemma finish_job_api_error:
  "finish_job loads req idx t (Inl e) ok = (Inl e, t, [], 0)"
  by (simp add: finish_job_def generate_resume_data_def)

lemma finish_job_parse_error:
  assumes "add_usage t (prompt_tokens r) (completion_tokens r) = (Inr c, t')"
    and "loads (content r) = Inl e"
  shows "finish_job loads req idx t (Inr r) ok = (Inl e, t', [], 0)"
  using assms by (simp add: finish_job_def generate_resume_data_def)

lemma finish_job_usage_error:
  assumes "add_usage t (prompt_tokens r) (completion_tokens r) = (Inl e, t')"
  shows "finish_job loads req idx t (Inr r) ok = (Inl e, t', [], 0)"
  using assms by (simp add: finish_job_def generate_resume_data_def)

lemma finish_job_rendered:
  assumes "add_usage t (prompt_tokens r) (completion_tokens r) = (Inr c, t')"
    and "loads (content r) = Inr (JObj members)"
  shows "finish_job loads req idx t (Inr r) True = (Inr (idx, c), t', [pdf_path idx], 1)"
    and "finish_job loads req idx t (Inr r) False = (Inl RenderError, t', [], 0)"
  using assms by (simp_all add: finish_job_def generate_resume_data_def render_pdf_def)

lemma finish_job_Inr:
  assumes "finish_job loads req idx t outcome ok = (Inr (idx', c), t', files, units)"
  shows "idx' = idx \<and> files = [pdf_path idx] \<and> units = 1
       \<and> (\<exists>r. outcome = Inr r \<and> add_usage t (prompt_tokens r) (completion_tokens r) = (Inr c, t'))"
  using assms
  by (auto simp add: finish_job_def generate_resume_data_def render_pdf_def
      split: sum.splits prod.splits json.splits if_splits)

text \<open>The stub request of 100 and 50 tokens.\<close>

lemma stub_quotients:
  "int_truediv 100 1000000 = Inr (Fin (7378697629483821 / 73786976294838206464))"
  "int_truediv 50 1000000 = Inr (Fin (7378697629483821 / 147573952589676412928))"
  by code_simp+

lemma stub_sum:
  "fadd (fmul (Fin (7378697629483821 / 73786976294838206464)) PRICE_INPUT_PER_1M)
        (fmul (Fin (7378697629483821 / 147573952589676412928)) PRICE_OUTPUT_PER_1M) = stub_cost"
  unfolding stub_cost_def by code_simp

lemma add_usage_stub:
  "add_usage t 100 50 =
     (Inr stub_cost,
      t\<lparr>total_input_tokens := total_input_tokens t + 100,
        total_output_tokens := total_output_tokens t + 50,
        resume_costs := resume_costs t @ [stub_cost]\<rparr>)"
  by (simp add: add_usage_def Let_def stub_quotients stub_sum)

lemma stub_request:
  "draw_request stub_mapping stub_draws =
     Inr \<lparr>req_industry = ''Technology'', req_role = ''Software Engineer'', req_seniority = 1,
          req_template = ''minimal.html''\<rparr>"
  by (simp add: draw_request_def stub_mapping_def stub_draws_def INDUSTRIES_def random_choice_def
      randbelow_def select_role_def choices_index_primary randint_def TEMPLATES_def Let_def)

lemma stub_finish:
  "finish_job stub_loads req idx t (Inr stub_response) True
     = (Inr (idx, stub_cost),
        t\<lparr>total_input_tokens := total_input_tokens t + 100,
          total_output_tokens := total_output_tokens t + 50,
          resume_costs := resume_costs t @ [stub_cost]\<rparr>, [pdf_path idx], 1)"
  by (rule finish_job_rendered(1) [where members = "[]"])
     (simp_all add: stub_response_def add_usage_stub stub_loads_def)

lemma malformed_finish:
  "finish_job stub_loads req idx t (Inr malformed_response) ok
     = (Inl JSONDecodeError,
        t\<lparr>total_input_tokens := total_input_tokens t + 100,
          total_output_tokens := total_output_tokens t + 50,
          resume_costs := resume_costs t @ [stub_cost]\<rparr>, [], 0)"
  by (rule finish_job_parse_error)
     (simp_all add: malformed_response_def add_usage_stub stub_loads_def)

lemma upto_small: "[1..3] = [1, 2, 3]" "[1..2] = [1, 2]" "[1..1] = [1]"
  by (simp_all add: upto.simps)

text \<open>Three jobs under a limit of two slots, all successful.\<close>

lemma stub_run:
  "exec stub_loads stub_mapping (initial_state 3 2)
     [Enter 0 stub_draws, Enter 1 stub_draws, Enter 2 stub_draws,
      Settle 1 (Inr stub_response) True, Enter 2 stub_draws,
      Settle 0 (Inr stub_response) True, Settle 2 (Inr stub_response) True]
   = \<lparr>sem_value = 2,
      jobs = [(1, Done 1 stub_cost), (2, Done 2 stub_cost), (3, Done 3 stub_cost)],
      tracker = \<lparr>total_input_tokens = 300, total_output_tokens = 150,
                  resume_costs = [stub_cost, stub_cost, stub_cost]\<rparr>,
      written = [pdf_path 2, pdf_path 1, pdf_path 3],
      advanced = 3, first_error = None\<rparr>"
  by (simp add: exec_def initial_state_def job_indices_def upto_small new_CostTracker_def step_def
      stub_request stub_finish set_phase_def acquire_def release_def)

text \<open>Two jobs under a limit of one slot: the API call of the first fails, the body of the
  second is not JSON.\<close>

lemma failing_run:
  "exec stub_loads stub_mapping (initial_state 2 1)
     [Enter 0 stub_draws, Enter 1 stub_draws, Settle 0 (Inl APIError) True,
      Enter 1 stub_draws, Settle 1 (Inr malformed_response) True]
   = \<lparr>sem_value = 1,
      jobs = [(1, Failed APIError), (2, Failed JSONDecodeError)],
      tracker = \<lparr>total_input_tokens = 100, total_output_tokens = 50,
                  resume_costs = [stub_cost]\<rparr>,
      written = [], advanced = 0, first_error = Some APIError\<rparr>"
  by (simp add: exec_def initial_state_def job_indices_def upto_small new_CostTracker_def step_def
      stub_request malformed_finish finish_job_api_error set_phase_def fail_def acquire_def
      release_def)

lemma step_effects:
  assumes "tracker (step loads RM s ev) \<noteq> tracker s \<or> written (step loads RM s ev) \<noteq> written s
           \<or> advanced (step loads RM s ev) \<noteq> advanced s"
  shows "\<exists>i outcome ok. ev = Settle i outcome ok \<and> i < length (jobs s) \<and> is_holding (snd (jobs s ! i))"
proof (cases ev)
  case (Enter i d)
  show ?thesis
  proof (cases "i < length (jobs s) \<and> snd (jobs s ! i) = Waiting \<and> 0 < sem_value s")
    case False
    with assms show ?thesis by (simp add: Enter step_Enter_disabled)
  next
    case True
    then have "i < length (jobs s)" "snd (jobs s ! i) = Waiting" "0 < sem_value s" by simp_all
    from step_Enter_cases [OF this, of loads RM d] assms show ?thesis
      by (auto simp add: Enter)
  qed
next
  case (Settle i outcome ok)
  show ?thesis
  proof (cases "i < length (jobs s) \<and> is_holding (snd (jobs s ! i))")
    case True
    with Settle show ?thesis by blast
  next
    case False
    then have "step loads RM s (Settle i outcome ok) = s" by (rule step_Settle_disabled)
    with assms Settle show ?thesis by simp
  qed
next
  case (Cancel i)
  with assms show ?thesis
    by (auto simp add: step_Cancel_cases split: if_splits)
qed

text \<open>
  C2. From the start of a run with \<open>total_count\<close> jobs and \<open>concurrency\<close> slots, after
  every schedule of events the number of jobs in their held-slot phase (each with one API
  call outstanding) is at most the limit, and free slots plus held slots make the limit.
  A job leaves the waiting phase only by taking a free slot; everything it does after the
  API call (recording usage, parsing, rendering, reporting progress) happens while it holds
  the slot, which is released in the same step.
\<close>

theorem concurrency_cap:
  "holding (exec loads RM (initial_state total_count concurrency) schedule) \<le> nat concurrency
   \<and> sem_value (exec loads RM (initial_state total_count concurrency) schedule)
       + holding (exec loads RM (initial_state total_count concurrency) schedule) = nat concurrency
   \<and> (0 \<le> concurrency \<longrightarrow>
        int (holding (exec loads RM (initial_state total_count concurrency) schedule)) \<le> concurrency)
   \<and> (\<forall>s i d. step loads RM s (Enter i d) \<noteq> s \<longrightarrow>
        0 < sem_value s \<and> snd (jobs s ! i) = Waiting)
   \<and> (\<forall>s i outcome ok. step loads RM s (Settle i outcome ok) \<noteq> s \<longrightarrow>
        is_holding (snd (jobs s ! i))
        \<and> sem_value (step loads RM s (Settle i outcome ok)) = sem_value s + 1
        \<and> \<not> is_holding (snd (jobs (step loads RM s (Settle i outcome ok)) ! i)))
   \<and> (\<forall>s ev. tracker (step loads RM s ev) \<noteq> tracker s
               \<or> written (step loads RM s ev) \<noteq> written s
               \<or> advanced (step loads RM s ev) \<noteq> advanced s \<longrightarrow>
        (\<exists>i outcome ok. ev = Settle i outcome ok \<and> i < length (jobs s)
           \<and> is_holding (snd (jobs s ! i))))"
proof -
  let ?s = "exec loads RM (initial_state total_count concurrency) schedule"
  have inv: "sem_value ?s + holding ?s = nat concurrency"
    using exec_slots [of loads RM "initial_state total_count concurrency" schedule]
    by (simp add: holding_initial) (simp add: initial_state_def)
  then have cap: "holding ?s \<le> nat concurrency" by linarith
  have enter: "0 < sem_value s \<and> snd (jobs s ! i) = Waiting"
    if "step loads RM s (Enter i d) \<noteq> s" for s i d
    using that step_Enter_disabled [of i s loads RM d] by blast
  have settle: "is_holding (snd (jobs s ! i))
        \<and> sem_value (step loads RM s (Settle i outcome ok)) = sem_value s + 1
        \<and> \<not> is_holding (snd (jobs (step loads RM s (Settle i outcome ok)) ! i))"
    if "step loads RM s (Settle i outcome ok) \<noteq> s" for s i outcome ok
  proof -
    from that step_Settle_disabled [of i s loads RM outcome ok]
    have en: "i < length (jobs s)" "is_holding (snd (jobs s ! i))" by blast+
    then obtain req where req: "snd (jobs s ! i) = Holding req"
      by (cases "snd (jobs s ! i)") auto
    from step_Settle_cases [OF en(1) req, of loads RM outcome ok] en show ?thesis
      by (auto simp add: set_phase_nth)
  qed
  from inv cap enter settle step_effects show ?thesis
    by (simp only: ) (intro conjI allI impI; (blast | linarith))
qed

theorem concurrency_cap_witness:
  "holding (exec stub_loads stub_mapping (initial_state 3 2)
      [Enter 0 stub_draws, Enter 1 stub_draws, Enter 2 stub_draws]) = 2
   \<and> sem_value (exec stub_loads stub_mapping (initial_state 3 2)
      [Enter 0 stub_draws, Enter 1 stub_draws, Enter 2 stub_draws]) = 0
   \<and> snd (jobs (exec stub_loads stub_mapping (initial_state 3 2)
      [Enter 0 stub_draws, Enter 1 stub_draws, Enter 2 stub_draws]) ! 2) = Waiting"
proof -
  let ?s = "exec stub_loads stub_mapping (initial_state 3 2)
      [Enter 0 stub_draws, Enter 1 stub_draws, Enter 2 stub_draws]"
  have run: "jobs ?s =
      [(1, Holding \<lparr>req_industry = ''Technology'', req_role = ''Software Engineer'',
                     req_seniority = 1, req_template = ''minimal.html''\<rparr>),
       (2, Holding \<lparr>req_industry = ''Technology'', req_role = ''Software Engineer'',
                     req_seniority = 1, req_template = ''minimal.html''\<rparr>),
       (3, Waiting)]"
    by (simp add: exec_def initial_state_def job_indices_def upto_small new_CostTracker_def
        step_def stub_request set_phase_def acquire_def)
  then have h: "holding ?s = 2" by (simp add: holding_def)
  from concurrency_cap [of stub_loads stub_mapping 3 2
      "[Enter 0 stub_draws, Enter 1 stub_draws, Enter 2 stub_draws]"]
  have "sem_value ?s + holding ?s = nat 2" by blast
  with h have "sem_value ?s = 0" by simp
  with h run show ?thesis by simp
qed

text \<open>
  C7. Whatever way a job that holds a slot ends (its API call fails, the usage cannot be
  recorded, the body does not parse, rendering fails, it is cancelled, or it succeeds),
  the step that ends it returns the slot; a job that fails before its API call returns
  the slot in the step that took it. Once every job has settled, all \<open>concurrency\<close>
  slots are free again.
\<close>

theorem slot_always_released:
  "(all_settled (exec loads RM (initial_state total_count concurrency) schedule) \<longrightarrow>
      sem_value (exec loads RM (initial_state total_count concurrency) schedule) = nat concurrency)
   \<and> (\<forall>s i req outcome ok. i < length (jobs s) \<and> snd (jobs s ! i) = Holding req \<longrightarrow>
        sem_value (step loads RM s (Settle i outcome ok)) = sem_value s + 1
        \<and> is_settled (snd (jobs (step loads RM s (Settle i outcome ok)) ! i))
        \<and> holding (step loads RM s (Settle i outcome ok)) + 1 = holding s)
   \<and> (\<forall>s i req. i < length (jobs s) \<and> snd (jobs s ! i) = Holding req \<longrightarrow>
        sem_value (step loads RM s (Cancel i)) = sem_value s + 1
        \<and> is_settled (snd (jobs (step loads RM s (Cancel i)) ! i)))
   \<and> (\<forall>s ev. sem_value (step loads RM s ev) + holding (step loads RM s ev)
                = sem_value s + holding s)"
proof (intro conjI allI impI)
  let ?s = "exec loads RM (initial_state total_count concurrency) schedule"
  assume "all_settled ?s"
  then have "holding ?s = 0" by (rule holding_settled)
  moreover have "sem_value ?s + holding ?s = nat concurrency"
    using exec_slots [of loads RM "initial_state total_count concurrency" schedule]
    by (simp add: holding_initial) (simp add: initial_state_def)
  ultimately show "sem_value ?s = nat concurrency" by simp
next
  fix s :: run_state and i req outcome ok
  assume "i < length (jobs s) \<and> snd (jobs s ! i) = Holding req"
  then have en: "i < length (jobs s)" "snd (jobs s ! i) = Holding req" by simp_all
  have a: "sem_value (step loads RM s (Settle i outcome ok)) = sem_value s + 1
      \<and> is_settled (snd (jobs (step loads RM s (Settle i outcome ok)) ! i))"
    using step_Settle_cases [of i s req loads RM outcome ok] en
    by (auto simp add: set_phase_nth)
  then show "sem_value (step loads RM s (Settle i outcome ok)) = sem_value s + 1"
    "is_settled (snd (jobs (step loads RM s (Settle i outcome ok)) ! i))" by simp_all
  from a step_slots [of loads RM s "Settle i outcome ok"]
  show "holding (step loads RM s (Settle i outcome ok)) + 1 = holding s" by simp
next
  fix s :: run_state and i req
  assume "i < length (jobs s) \<and> snd (jobs s ! i) = Holding req"
  then show "sem_value (step loads RM s (Cancel i)) = sem_value s + 1"
    "is_settled (snd (jobs (step loads RM s (Cancel i)) ! i))"
    by (simp_all add: step_Cancel_cases set_phase_nth)
next
  fix s ev
  show "sem_value (step loads RM s ev) + holding (step loads RM s ev) = sem_value s + holding s"
    by (rule step_slots)
qed

theorem slot_always_released_witness:
  "all_settled (exec stub_loads stub_mapping (initial_state 2 1)
     [Enter 0 stub_draws, Enter 1 stub_draws, Settle 0 (Inl APIError) True,
      Enter 1 stub_draws, Settle 1 (Inr malformed_response) True])
   \<and> sem_value (exec stub_loads stub_mapping (initial_state 2 1)
     [Enter 0 stub_draws, Enter 1 stub_draws, Settle 0 (Inl APIError) True,
      Enter 1 stub_draws, Settle 1 (Inr malformed_response) True]) = 1"
proof -
  let ?s = "exec stub_loads stub_mapping (initial_state 2 1)
     [Enter 0 stub_draws, Enter 1 stub_draws, Settle 0 (Inl APIError) True,
      Enter 1 stub_draws, Settle 1 (Inr malformed_response) True]"
  have settled: "all_settled ?s"
    by (subst failing_run) (simp add: all_settled_def)
  with slot_always_released [of stub_loads stub_mapping 2 1
     "[Enter 0 stub_draws, Enter 1 stub_draws, Settle 0 (Inl APIError) True,
      Enter 1 stub_draws, Settle 1 (Inr malformed_response) True]"]
  have "sem_value ?s = nat 1" by blast
  with settled show ?thesis by simp
qed

end
